theory Spec2Isabelle
  imports Main "HOL-Library.Word"
begin

section \<open>The generic SQL driver of the revision log (pkg/kine/drivers/generic/generic.go)\<close>

subsection \<open>Prefix ranges\<close>

text \<open>
  Go strings are byte sequences; \<open>string\<close> is a list of 8-bit characters.
  \<open>strings.HasSuffix(s, suffix)\<close> is
  \<open>len(s) >= len(suffix) && s[len(s)-len(suffix):] == suffix\<close>.
\<close>

definition HasSuffix :: "string \<Rightarrow> string \<Rightarrow> bool" where
  "HasSuffix s suffix =
     (length suffix \<le> length s \<and> drop (length s - length suffix) s = suffix)"

text \<open>
  \<open>getPrefixRange\<close>: \<open>prefix[0:len(prefix)-1] + "0"\<close> when the prefix ends with a
  slash, \<open>prefix + "\x01"\<close> otherwise. The slice is only taken in the branch where the
  prefix has at least one byte.
\<close>

definition getPrefixRange :: "string \<Rightarrow> string \<times> string" where
  "getPrefixRange prefix =
     (let start = prefix in
      if HasSuffix prefix ''/''
      then (start, take (length prefix - 1) prefix @ ''0'')
      else (start, prefix @ [CHR 0x01]))"

subsection \<open>Durations and the watch query timeout\<close>

text \<open>
  \<open>time.Duration\<close> is an \<open>int64\<close> count of nanoseconds: a 64-bit word read as two's
  complement by \<open>sint\<close>. The comparison \<open>v >= 5*time.Second\<close> is a signed one.
\<close>

type_synonym Duration = "64 word"

definition Second :: Duration where
  "Second = 1000000000"

subsection \<open>Errors and results\<close>

text \<open>
  Go errors as values. \<open>DriverError\<close> stands for an error produced by the SQL driver or by
  \<open>database/sql\<close>; \<open>TryError op n e\<close> is \<open>fmt.Errorf("<op> (try: %d): %w", n, e)\<close>;
  \<open>ContextError\<close> is \<open>ctx.Err()\<close>; \<open>Message\<close> is an error built from a fixed text.
\<close>

datatype error =
    DriverError string
  | TryError string nat error
  | ContextError
  | Message string

text \<open>A call either returns its results or panics (a nil dereference).\<close>

datatype 'a go = Return 'a | Panic

subsection \<open>The connection pool handle and the Generic struct\<close>

record ConnectionPoolConfig =
  MaxIdle :: int
  MaxOpen :: int
  MaxLifetime :: Duration
  MaxIdleTime :: Duration

text \<open>The settings of a \<open>*sql.DB\<close> that \<open>configureConnectionPooling\<close> writes.\<close>

record sql_DB =
  maxIdleConns :: int
  maxOpenConns :: int
  connMaxLifetime :: Duration
  connMaxIdleTime :: Duration

text \<open>
  The fields of \<open>Generic\<close> that the functions below read. The SQL texts held by the
  struct are fixed by \<open>Open\<close>; their meaning is given by the statement functions of the
  next subsections. \<open>Retry\<close> and \<open>TranslateErr\<close> are function values that may be nil, and
  \<open>TranslateErr\<close> returns an \<open>error\<close>, which may be nil as well.
\<close>

record Generic =
  LockWrites :: bool
  DB :: sql_DB
  Retry :: "(error \<Rightarrow> bool) option"
  TranslateErr :: "(error \<Rightarrow> error option) option"
  CompactInterval :: Duration
  PollInterval :: Duration
  WatchQueryTimeout :: Duration

definition GetWatchQueryTimeout :: "Generic \<Rightarrow> Duration" where
  "GetWatchQueryTimeout d =
     (let v = WatchQueryTimeout d in
      if sint (5 * Second) \<le> sint v then v else 20 * Second)"

text \<open>The zero value of the struct, \<open>Generic{}\<close>, and of the pool handle.\<close>

definition zero_DB :: sql_DB where
  "zero_DB = \<lparr>maxIdleConns = 0, maxOpenConns = 0, connMaxLifetime = 0, connMaxIdleTime = 0\<rparr>"

definition zero_Generic :: Generic where
  "zero_Generic =
     \<lparr>LockWrites = False, DB = zero_DB, Retry = None, TranslateErr = None,
      CompactInterval = 0, PollInterval = 0, WatchQueryTimeout = 0\<rparr>"

subsection \<open>Opening the database\<close>

text \<open>
  What happens outside the program while \<open>Open\<close> runs: the error of \<open>sql.Open\<close> at
  iteration \<open>i\<close> of the loop of \<open>Open\<close>, the error of the \<open>j\<close>-th \<open>Ping\<close> of that iteration,
  and whether the context is cancelled before the one-second timer of that iteration
  fires. A handle returned by \<open>sql.Open\<close> has the zero settings.
\<close>

record open_env =
  sql_open_fails :: "nat \<Rightarrow> error option"
  ping_fails :: "nat \<Rightarrow> nat \<Rightarrow> error option"
  ctx_done :: "nat \<Rightarrow> bool"

definition defaultMaxIdleConns :: int where
  "defaultMaxIdleConns = 2"

text \<open>
  \<open>configureConnectionPooling\<close> first normalises \<open>MaxIdle\<close> in the configuration it points
  to, then calls the four setters of the handle. A setter of \<open>*sql.DB\<close> locks a mutex inside
  the struct, so it panics on a nil handle. The setters are taken to store their
  argument.
\<close>

definition configureConnectionPooling ::
  "ConnectionPoolConfig \<Rightarrow> sql_DB option \<Rightarrow> (ConnectionPoolConfig \<times> sql_DB) go" where
  "configureConnectionPooling connPoolConfig db =
     (let cfg = (if MaxIdle connPoolConfig < 0 then connPoolConfig\<lparr>MaxIdle := 0\<rparr>
                 else if MaxIdle connPoolConfig = 0
                      then connPoolConfig\<lparr>MaxIdle := defaultMaxIdleConns\<rparr>
                      else connPoolConfig)
      in case db of
           None \<Rightarrow> Panic
         | Some h \<Rightarrow>
             Return (cfg, h\<lparr>maxIdleConns := MaxIdle cfg, maxOpenConns := MaxOpen cfg,
                            connMaxLifetime := MaxLifetime cfg,
                            connMaxIdleTime := MaxIdleTime cfg\<rparr>))"

text \<open>The loop \<open>for i := 0; i < 3; i++\<close> of \<open>openAndTest\<close>: the first failing \<open>Ping\<close> ends it.\<close>

function ping_loop :: "(nat \<Rightarrow> error option) \<Rightarrow> nat \<Rightarrow> error option" where
  "ping_loop ping i =
     (if i < 3
      then (case ping i of Some e \<Rightarrow> Some e | None \<Rightarrow> ping_loop ping (i + 1))
      else None)"
  by pat_completeness auto
termination
  by (relation "measure (\<lambda>(ping, i). 3 - i)") auto

definition openAndTest :: "open_env \<Rightarrow> nat \<Rightarrow> sql_DB option \<times> error option" where
  "openAndTest env i =
     (case sql_open_fails env i of
        Some e \<Rightarrow> (None, Some e)
      | None \<Rightarrow>
          (case ping_loop (ping_fails env i) 0 of
             Some e \<Rightarrow> (None, Some e)
           | None \<Rightarrow> (Some zero_DB, None)))"

text \<open>
  The loop of \<open>Open\<close>: \<open>for i := 0; i < 300; i++\<close>, with a break on success and a return
  of \<open>ctx.Err()\<close> from inside the \<open>select\<close>. \<open>Inr\<close> is that return; \<open>Inl\<close> carries the
  variables \<open>db\<close> and \<open>err\<close> as they are when the loop is left.
\<close>

function Open_loop ::
  "open_env \<Rightarrow> nat \<Rightarrow> sql_DB option \<Rightarrow> error option \<Rightarrow> (sql_DB option \<times> error option) + error" where
  "Open_loop env i db err =
     (if i < 300
      then (case openAndTest env i of
              (db', err') \<Rightarrow>
                (case err' of
                   None \<Rightarrow> Inl (db', err')
                 | Some e \<Rightarrow>
                     if ctx_done env i then Inr ContextError
                     else Open_loop env (i + 1) db' err'))
      else Inl (db, err))"
  by pat_completeness auto
termination
  by (relation "measure (\<lambda>(env, i, db, err). 300 - i)") auto

text \<open>
  \<open>Open\<close>: after the loop, \<open>configureConnectionPooling(connPoolConfig, db)\<close>, then the return
  of the new struct together with \<open>err\<close>. The struct is the zero value apart from the
  handle and the SQL texts.
\<close>

definition Open :: "open_env \<Rightarrow> ConnectionPoolConfig \<Rightarrow> (Generic option \<times> error option) go" where
  "Open env connPoolConfig =
     (case Open_loop env 0 None None of
        Inr e \<Rightarrow> Return (None, Some e)
      | Inl (db, err) \<Rightarrow>
          (case configureConnectionPooling connPoolConfig db of
             Panic \<Rightarrow> Panic
           | Return (cfg, h) \<Rightarrow> Return (Some (zero_Generic\<lparr>DB := h\<rparr>), err)))"

subsection \<open>The kine table\<close>

text \<open>
  One row of the table, with the columns of the INSERT statements. \<open>created\<close> and
  \<open>deleted\<close> are integer columns; ids and revisions are \<open>int64\<close> in the source and are
  taken as unbounded integers here (no claim is about their overflow).
\<close>

record row =
  kv_id :: int
  kv_name :: string
  kv_created :: int
  kv_deleted :: int
  kv_create_revision :: int
  kv_prev_revision :: int
  kv_lease :: int
  kv_value :: "string option"
  kv_old_value :: "string option"

text \<open>
  The table in insertion order, and the greatest id the engine has handed out so far.
\<close>

record kine_db =
  kine :: "row list"
  last_id :: int

text \<open>
  Modelled from the spec: the id of an inserted row. The table's schema is not part of
  the source; the spec says ids are unique, assigned by the SQL engine and strictly
  increasing with insertion order. The next id is one above every id in the table and
  every id handed out before.
\<close>

definition next_id :: "kine_db \<Rightarrow> int" where
  "next_id db = 1 + fold max (map kv_id (kine db)) (last_id db)"

definition insert_row :: "row \<Rightarrow> kine_db \<Rightarrow> kine_db" where
  "insert_row r db =
     (let i = next_id db in db\<lparr>kine := kine db @ [r\<lparr>kv_id := i\<rparr>], last_id := i\<rparr>)"

text \<open>
  A statement run by \<open>ExecContext\<close> maps the table to the pair (rows affected, last insert
  id) and the new table. \<open>INSERT ... SELECT\<close> evaluates its SELECT on the table as it is
  before the statement and then inserts the selected rows one by one.
\<close>

type_synonym statement = "kine_db \<Rightarrow> (int \<times> int) \<times> kine_db"

definition insert_select :: "row list \<Rightarrow> statement" where
  "insert_select rs db =
     (let db' = fold insert_row rs db in ((int (length rs), last_id db'), db'))"

text \<open>
  \<open>SELECT MAX(id) AS id, deleted FROM kine WHERE name = ?\<close>: an aggregate without GROUP BY
  yields exactly one row; over no rows both columns are NULL; otherwise the bare column
  \<open>deleted\<close> comes from the row that holds the maximum (the rule of SQLite, the engine
  behind this driver).
\<close>

definition max_row :: "row \<Rightarrow> row list \<Rightarrow> row" where
  "max_row r rs = fold (\<lambda>x acc. if kv_id acc < kv_id x then x else acc) rs r"

definition maxkv :: "row list \<Rightarrow> string \<Rightarrow> int option \<times> int option" where
  "maxkv rows key =
     (case filter (\<lambda>r. kv_name r = key) rows of
        [] \<Rightarrow> (None, None)
      | r # rs \<Rightarrow> (let m = max_row r rs in (Some (kv_id m), Some (kv_deleted m))))"

text \<open>\<open>SELECT MAX(id) FROM kine WHERE name = ?\<close>\<close>

definition max_id :: "row list \<Rightarrow> string \<Rightarrow> int option" where
  "max_id rows key = fst (maxkv rows key)"

text \<open>
  \<open>CreateSQL\<close>, with its four parameters in order. The WHERE clause
  \<open>maxkv.deleted = 1 OR id IS NULL\<close> keeps the single row of \<open>maxkv\<close> or drops it.
\<close>

definition CreateSQL :: "string \<Rightarrow> int \<Rightarrow> string \<Rightarrow> string \<Rightarrow> statement" where
  "CreateSQL name lease val key db =
     (case maxkv (kine db) key of
        (mid, mdeleted) \<Rightarrow>
          if mdeleted = Some 1 \<or> mid = None
          then insert_select
                 [\<lparr>kv_id = 0, kv_name = name, kv_created = 1, kv_deleted = 0,
                   kv_create_revision = 0,
                   kv_prev_revision = (case mid of None \<Rightarrow> 0 | Some i \<Rightarrow> i),
                   kv_lease = lease, kv_value = Some val, kv_old_value = None\<rparr>] db
          else insert_select [] db)"

text \<open>
  \<open>UpdateSQL\<close> and \<open>DeleteSQL\<close> select from the whole table the rows with
  \<open>id = (SELECT MAX(id) FROM kine WHERE name = ?) AND deleted = 0 AND id = ?\<close>
  and insert one row for each.
\<close>

definition cas_rows :: "row list \<Rightarrow> string \<Rightarrow> int \<Rightarrow> row list" where
  "cas_rows rows key revision =
     filter (\<lambda>r. Some (kv_id r) = max_id rows key \<and> kv_deleted r = 0 \<and> kv_id r = revision) rows"

definition UpdateSQL :: "string \<Rightarrow> int \<Rightarrow> string \<Rightarrow> string \<Rightarrow> int \<Rightarrow> statement" where
  "UpdateSQL name lease val key preRev db =
     insert_select
       (map (\<lambda>r. \<lparr>kv_id = 0, kv_name = name, kv_created = 0, kv_deleted = 0,
                   kv_create_revision =
                     (if kv_created r \<noteq> 0 then kv_id r else kv_create_revision r),
                   kv_prev_revision = kv_id r,
                   kv_lease = lease, kv_value = Some val, kv_old_value = kv_value r\<rparr>)
            (cas_rows (kine db) key preRev)) db"

definition DeleteSQL :: "string \<Rightarrow> int \<Rightarrow> statement" where
  "DeleteSQL key revision db =
     insert_select
       (map (\<lambda>r. \<lparr>kv_id = 0, kv_name = kv_name r, kv_created = 0, kv_deleted = 1,
                   kv_create_revision =
                     (if kv_created r \<noteq> 0 then kv_id r else kv_create_revision r),
                   kv_prev_revision = kv_id r,
                   kv_lease = kv_lease r, kv_value = None, kv_old_value = kv_value r\<rparr>)
            (cas_rows (kine db) key revision)) db"

subsection \<open>The driver and the retry loop\<close>

text \<open>
  What the SQL engine does on each call is an input of the model. \<open>exec_fails i\<close> and
  \<open>query_fails i\<close> give the error of the call made at try \<open>i\<close>, or \<open>None\<close> when the call goes
  through; a failed call leaves the table as it is. \<open>rows_affected_fails\<close> and
  \<open>last_insert_id_fails\<close> are the errors of the two methods of \<open>sql.Result\<close>; \<open>rows_err\<close> is
  \<open>rows.Err()\<close> and \<open>scan_fails\<close> the error of \<open>rows.Scan\<close>. \<open>tx_fails i\<close> says which
  step of the transaction of \<open>tryCompact\<close> fails at try \<open>i\<close> of \<open>Compact\<close>, and with which
  error, or \<open>None\<close> when the whole transaction goes through.
\<close>

datatype tx_step = BeginTx | ExecDeleteSuperseded | ExecDeleteTombstones | ExecUpdateCompact | Commit

record driver =
  exec_fails :: "nat \<Rightarrow> error option"
  rows_affected_fails :: "error option"
  last_insert_id_fails :: "error option"
  query_fails :: "nat \<Rightarrow> error option"
  rows_err :: "error option"
  scan_fails :: "error option"
  tx_fails :: "nat \<Rightarrow> (tx_step \<times> error) option"

record Result =
  RowsAffected :: "error + int"
  LastInsertId :: "error + int"

definition maxRetries :: nat where
  "maxRetries = 500"

text \<open>The loops go on after an error \<open>e\<close> unless \<open>d.Retry == nil || !d.Retry(e)\<close>.\<close>

definition retryable :: "Generic \<Rightarrow> error \<Rightarrow> bool" where
  "retryable d e = (case Retry d of None \<Rightarrow> False | Some r \<Rightarrow> r e)"

text \<open>
  The loop shared by \<open>query\<close>, \<open>execute\<close> and \<open>Compact\<close>:
  \<open>for ; retryCount < maxRetries; retryCount++\<close>, with a break when the attempt returns no
  error and a break when the error is not to be retried. It returns the counter with the
  last result and error. There is no wait between two attempts.
\<close>

function retry_loop ::
  "Generic \<Rightarrow> (nat \<Rightarrow> 's \<Rightarrow> ('r option \<times> error option) \<times> 's) \<Rightarrow> nat \<Rightarrow>
     'r option \<Rightarrow> error option \<Rightarrow> 's \<Rightarrow> nat \<times> 'r option \<times> error option \<times> 's" where
  "retry_loop d attempt retryCount result err s =
     (if retryCount < maxRetries
      then (case attempt retryCount s of
              ((result', err'), s') \<Rightarrow>
                (case err' of
                   None \<Rightarrow> (retryCount, result', err', s')
                 | Some e \<Rightarrow>
                     if \<not> retryable d e then (retryCount, result', err', s')
                     else retry_loop d attempt (retryCount + 1) result' err' s'))
      else (retryCount, result, err, s))"
  by pat_completeness auto
termination
  by (relation "measure (\<lambda>(d, attempt, retryCount, result, err, s). maxRetries - retryCount)")
    auto

text \<open>The \<open>sql.Result\<close> of a statement that affected \<open>n\<close> rows, the last with id \<open>lid\<close>.\<close>

definition result_of :: "driver \<Rightarrow> int \<times> int \<Rightarrow> Result" where
  "result_of drv nl =
     (case nl of
        (n, lid) \<Rightarrow>
          \<lparr>RowsAffected = (case rows_affected_fails drv of Some e \<Rightarrow> Inl e | None \<Rightarrow> Inr n),
           LastInsertId = (case last_insert_id_fails drv of Some e \<Rightarrow> Inl e | None \<Rightarrow> Inr lid)\<rparr>)"

definition ExecContext ::
  "driver \<Rightarrow> statement \<Rightarrow> nat \<Rightarrow> kine_db \<Rightarrow> (Result option \<times> error option) \<times> kine_db" where
  "ExecContext drv stmt i db =
     (case exec_fails drv i of
        Some e \<Rightarrow> ((None, Some e), db)
      | None \<Rightarrow> (case stmt db of (nl, db') \<Rightarrow> ((Some (result_of drv nl), None), db')))"

text \<open>
  \<open>execute\<close>: the loop over \<open>ExecContext\<close>, then the deferred closure that wraps a non-nil
  error with the value of \<open>retryCount\<close>. The write lock and the telemetry calls have no
  effect on the results.
\<close>

definition execute ::
  "Generic \<Rightarrow> driver \<Rightarrow> statement \<Rightarrow> kine_db \<Rightarrow> (Result option \<times> error option) \<times> kine_db" where
  "execute d drv stmt db =
     (case retry_loop d (ExecContext drv stmt) 0 None None db of
        (retryCount, result, err, db') \<Rightarrow>
          ((result, map_option (TryError ''exec'' retryCount) err), db'))"

text \<open>
  \<open>query\<close>: the same loop over \<open>QueryContext\<close>, which reads the table and returns the
  selected rows.
\<close>

definition QueryContext ::
  "driver \<Rightarrow> (kine_db \<Rightarrow> 'a list) \<Rightarrow> nat \<Rightarrow> kine_db \<Rightarrow> ('a list option \<times> error option) \<times> kine_db" where
  "QueryContext drv sel i db =
     (case query_fails drv i of
        Some e \<Rightarrow> ((None, Some e), db)
      | None \<Rightarrow> ((Some (sel db), None), db))"

definition query ::
  "Generic \<Rightarrow> driver \<Rightarrow> (kine_db \<Rightarrow> 'a list) \<Rightarrow> kine_db \<Rightarrow> 'a list option \<times> error option" where
  "query d drv sel db =
     (case retry_loop d (QueryContext drv sel) 0 None None db of
        (retryCount, rows, err, db') \<Rightarrow>
          (rows, map_option (TryError ''query'' retryCount) err))"

subsection \<open>Create, Update and Delete\<close>

text \<open>
  The deferred closure of \<open>Create\<close> and \<open>Update\<close>: a non-nil error goes through
  \<open>TranslateErr\<close> when that is set.
\<close>

definition translate_deferred :: "Generic \<Rightarrow> error option \<Rightarrow> error option" where
  "translate_deferred d err =
     (case err of
        None \<Rightarrow> None
      | Some e \<Rightarrow> (case TranslateErr d of None \<Rightarrow> Some e | Some t \<Rightarrow> t e))"

text \<open>
  The part that the three operations share word for word: the check of the error of
  \<open>execute\<close>, \<open>RowsAffected\<close>, the early return on zero rows, \<open>LastInsertId\<close>. Calling a
  method of a nil \<open>sql.Result\<close> panics. On an error of \<open>LastInsertId\<close> the revision
  returned is the zero value.
\<close>

definition insert_outcome ::
  "(Result option \<times> error option) \<Rightarrow> (int \<times> bool \<times> error option) go" where
  "insert_outcome re =
     (case re of
        (result, Some e) \<Rightarrow> Return (0, False, Some e)
      | (None, None) \<Rightarrow> Panic
      | (Some res, None) \<Rightarrow>
          (case RowsAffected res of
             Inl e \<Rightarrow> Return (0, False, Some e)
           | Inr insertCount \<Rightarrow>
               if insertCount = 0 then Return (0, False, None)
               else (case LastInsertId res of
                       Inl e \<Rightarrow> Return (0, True, Some e)
                     | Inr lastId \<Rightarrow> Return (lastId, True, None))))"

definition apply_deferred ::
  "(error option \<Rightarrow> error option) \<Rightarrow> (int \<times> bool \<times> error option) go \<Rightarrow>
     (int \<times> bool \<times> error option) go" where
  "apply_deferred f out =
     (case out of Panic \<Rightarrow> Panic | Return (r, ok, err) \<Rightarrow> Return (r, ok, f err))"

definition Create ::
  "Generic \<Rightarrow> driver \<Rightarrow> string \<Rightarrow> string \<Rightarrow> int \<Rightarrow> kine_db \<Rightarrow>
     (int \<times> bool \<times> error option) go \<times> kine_db" where
  "Create d drv key val ttl db =
     (case execute d drv (CreateSQL key ttl val key) db of
        (re, db') \<Rightarrow> (apply_deferred (translate_deferred d) (insert_outcome re), db'))"

definition Update ::
  "Generic \<Rightarrow> driver \<Rightarrow> string \<Rightarrow> string \<Rightarrow> int \<Rightarrow> int \<Rightarrow> kine_db \<Rightarrow>
     (int \<times> bool \<times> error option) go \<times> kine_db" where
  "Update d drv key val preRev ttl db =
     (case execute d drv (UpdateSQL key ttl val key preRev) db of
        (re, db') \<Rightarrow> (apply_deferred (translate_deferred d) (insert_outcome re), db'))"

text \<open>The deferred closure of \<open>Delete\<close> only records the error.\<close>

definition Delete ::
  "Generic \<Rightarrow> driver \<Rightarrow> string \<Rightarrow> int \<Rightarrow> kine_db \<Rightarrow>
     (int \<times> bool \<times> error option) go \<times> kine_db" where
  "Delete d drv key revision db =
     (case execute d drv (DeleteSQL key revision) db of
        (re, db') \<Rightarrow> (apply_deferred (\<lambda>err. err) (insert_outcome re), db'))"

subsection \<open>Compaction\<close>

definition compact_rev_key :: string where
  "compact_rev_key = ''compact_rev_key''"

text \<open>SQL \<open>MAX\<close> over a column: NULL over no rows.\<close>

definition max_opt :: "int list \<Rightarrow> int option" where
  "max_opt xs = (case xs of [] \<Rightarrow> None | x # ys \<Rightarrow> Some (fold max ys x))"

text \<open>
  \<open>revisionIntervalSQL\<close>: one row with the columns \<open>low\<close> (the greatest \<open>prev_revision\<close> of
  the rows named \<open>compact_rev_key\<close>) and \<open>high\<close> (the greatest id of the table).
\<close>

definition revisionIntervalSQL :: "kine_db \<Rightarrow> (int option \<times> int option) list" where
  "revisionIntervalSQL db =
     [(max_opt (map kv_prev_revision (filter (\<lambda>r. kv_name r = compact_rev_key) (kine db))),
       max_opt (map kv_id (kine db)))]"

text \<open>The field \<open>Int64\<close> of a scanned \<open>sql.NullInt64\<close>: zero for NULL.\<close>

definition Int64 :: "int option \<Rightarrow> int" where
  "Int64 v = (case v of None \<Rightarrow> 0 | Some i \<Rightarrow> i)"

text \<open>
  \<open>GetCompactRevision\<close>. \<open>rows.Next()\<close> is false when there is no row or the iteration
  failed; closing a nil \<open>*sql.Rows\<close> panics.
\<close>

definition GetCompactRevision :: "Generic \<Rightarrow> driver \<Rightarrow> kine_db \<Rightarrow> (int \<times> int \<times> error option) go" where
  "GetCompactRevision d drv db =
     (case query d drv revisionIntervalSQL db of
        (rows, Some e) \<Rightarrow> Return (0, 0, Some e)
      | (None, None) \<Rightarrow> Panic
      | (Some rows, None) \<Rightarrow>
          (case rows of
             [] \<Rightarrow>
               (case rows_err drv of
                  Some e \<Rightarrow> Return (0, 0, Some e)
                | None \<Rightarrow>
                    Return (0, 0, Some (Message
                      ''cannot get compact revision: aggregate query returned no rows'')))
           | (compact, target) # rest \<Rightarrow>
               (case rows_err drv of
                  Some e \<Rightarrow> Return (0, 0, Some e)
                | None \<Rightarrow>
                    (case scan_fails drv of
                       Some e \<Rightarrow> Return (0, 0, Some e)
                     | None \<Rightarrow> Return (Int64 compact, Int64 target, None)))))"

text \<open>
  The three statements of \<open>tryCompact\<close>, on the rows of the table. The subquery of the
  first one is evaluated on the table as it is before the statement.
\<close>

definition delete_superseded :: "int \<Rightarrow> int \<Rightarrow> row list \<Rightarrow> row list" where
  "delete_superseded start endRev rows =
     (let prevs = map kv_prev_revision
                    (filter (\<lambda>r. kv_name r \<noteq> compact_rev_key \<and> kv_created r = 0 \<and>
                                 kv_prev_revision r \<noteq> 0 \<and> start < kv_id r \<and> kv_id r \<le> endRev)
                       rows)
      in filter (\<lambda>r. kv_id r \<notin> set prevs) rows)"

definition delete_tombstones :: "int \<Rightarrow> int \<Rightarrow> row list \<Rightarrow> row list" where
  "delete_tombstones start endRev rows =
     filter (\<lambda>r. \<not> (kv_deleted r = 1 \<and> start < kv_id r \<and> kv_id r \<le> endRev)) rows"

definition UpdateCompactSQL :: "int \<Rightarrow> row list \<Rightarrow> row list" where
  "UpdateCompactSQL revision rows =
     map (\<lambda>r. if kv_name r = compact_rev_key
               then r\<lparr>kv_prev_revision := max (kv_prev_revision r) revision\<rparr> else r) rows"

definition step_fails :: "(tx_step \<times> error) option \<Rightarrow> tx_step \<Rightarrow> error option" where
  "step_fails fail st =
     (case fail of None \<Rightarrow> None | Some (st', e) \<Rightarrow> if st' = st then Some e else None)"

text \<open>
  \<open>tryCompact\<close>. The statements work on the transaction's view of the table. Every
  return before a successful \<open>Commit\<close> runs the deferred \<open>Rollback\<close>, which leaves the table
  as it was at \<open>BeginTx\<close>; a failed \<open>Commit\<close> commits nothing; after a successful \<open>Commit\<close>
  the deferred \<open>Rollback\<close> has no effect.
\<close>

definition tryCompact ::
  "(tx_step \<times> error) option \<Rightarrow> int \<Rightarrow> int \<Rightarrow> kine_db \<Rightarrow> error option \<times> kine_db" where
  "tryCompact fail start endRev db =
     (case step_fails fail BeginTx of
        Some e \<Rightarrow> (Some e, db)
      | None \<Rightarrow>
     (case step_fails fail ExecDeleteSuperseded of
        Some e \<Rightarrow> (Some e, db)
      | None \<Rightarrow>
     (let tx1 = delete_superseded start endRev (kine db) in
      case step_fails fail ExecDeleteTombstones of
        Some e \<Rightarrow> (Some e, db)
      | None \<Rightarrow>
     (let tx2 = delete_tombstones start endRev tx1 in
      case step_fails fail ExecUpdateCompact of
        Some e \<Rightarrow> (Some e, db)
      | None \<Rightarrow>
     (let tx3 = UpdateCompactSQL endRev tx2 in
      case step_fails fail Commit of
        Some e \<Rightarrow> (Some e, db)
      | None \<Rightarrow> (None, db\<lparr>kine := tx3\<rparr>))))))"

text \<open>One try of the loop of \<open>Compact\<close>: \<open>err = d.tryCompact(ctx, compactStart, revision)\<close>.\<close>

definition compact_attempt ::
  "driver \<Rightarrow> int \<Rightarrow> int \<Rightarrow> nat \<Rightarrow> kine_db \<Rightarrow> (unit option \<times> error option) \<times> kine_db" where
  "compact_attempt drv start endRev retryCount tdb =
     (case tryCompact (tx_fails drv retryCount) start endRev tdb of
        (err, tdb') \<Rightarrow> ((None, err), tdb'))"

text \<open>
  \<open>Compact\<close>: the early return compares \<open>compactStart\<close> with the revision asked for, then the
  revision is lowered to the current one, then the retry loop runs \<open>tryCompact\<close>.
\<close>

definition Compact ::
  "Generic \<Rightarrow> driver \<Rightarrow> int \<Rightarrow> kine_db \<Rightarrow> error option go \<times> kine_db" where
  "Compact d drv revision db =
     (case GetCompactRevision d drv db of
        Panic \<Rightarrow> (Panic, db)
      | Return (compactStart, currentRevision, Some e) \<Rightarrow> (Return (Some e), db)
      | Return (compactStart, currentRevision, None) \<Rightarrow>
          if revision \<le> compactStart then (Return None, db)
          else
            (let revision' = (if currentRevision < revision then currentRevision else revision)
             in case retry_loop d (compact_attempt drv compactStart revision') 0 None None db of
                  (retryCount, r, err, db') \<Rightarrow> (Return err, db')))"

text \<open>
  The compaction pass in the words of the specification, as one change of the table:
  the rows that stay are those that are neither (a) referred to as \<open>prev_revision\<close> by a
  row of the window \<open>(compact, target]\<close> with another name than the marker's,
  \<open>created = 0\<close> and \<open>prev_revision \<noteq> 0\<close>, nor (b) tombstones of the window; and (c) the
  marker row gets \<open>max prev_revision target\<close>.
\<close>

definition compaction_pass :: "int \<Rightarrow> int \<Rightarrow> row list \<Rightarrow> row list" where
  "compaction_pass compact target rows =
     map (\<lambda>r. if kv_name r = compact_rev_key
               then r\<lparr>kv_prev_revision := max (kv_prev_revision r) target\<rparr> else r)
       (filter (\<lambda>r. \<not> (\<exists>r' \<in> set rows. kv_name r' \<noteq> compact_rev_key \<and> kv_created r' = 0 \<and>
                          kv_prev_revision r' \<noteq> 0 \<and> compact < kv_id r' \<and> kv_id r' \<le> target \<and>
                          kv_prev_revision r' = kv_id r) \<and>
                     \<not> (kv_deleted r = 1 \<and> compact < kv_id r \<and> kv_id r \<le> target)) rows)"

subsection \<open>Vocabulary of the properties\<close>

text \<open>
  The key has no row; a row is the key's latest row (the greatest id among the key's
  rows); the latest row is a tombstone; the latest row is live.
\<close>

definition no_row_for :: "row list \<Rightarrow> string \<Rightarrow> bool" where
  "no_row_for rows key = (\<forall>r \<in> set rows. kv_name r \<noteq> key)"

definition is_latest :: "row list \<Rightarrow> string \<Rightarrow> row \<Rightarrow> bool" where
  "is_latest rows key r =
     (r \<in> set rows \<and> kv_name r = key \<and>
      (\<forall>r' \<in> set rows. kv_name r' = key \<longrightarrow> kv_id r' \<le> kv_id r))"

definition latest_is_tombstone :: "row list \<Rightarrow> string \<Rightarrow> bool" where
  "latest_is_tombstone rows key = (\<exists>r \<in> set rows. is_latest rows key r \<and> kv_deleted r = 1)"

definition latest_is_live :: "row list \<Rightarrow> string \<Rightarrow> bool" where
  "latest_is_live rows key = (\<exists>r \<in> set rows. is_latest rows key r \<and> kv_deleted r = 0)"

text \<open>The row that \<open>CreateSQL\<close> selects for insertion, with the id the engine gives it.\<close>

definition created_row :: "string \<Rightarrow> int \<Rightarrow> string \<Rightarrow> int \<Rightarrow> int \<Rightarrow> row" where
  "created_row key ttl val prev i =
     \<lparr>kv_id = i, kv_name = key, kv_created = 1, kv_deleted = 0, kv_create_revision = 0,
      kv_prev_revision = prev, kv_lease = ttl, kv_value = Some val, kv_old_value = None\<rparr>"


text \<open>The open-and-ping attempt of iteration \<open>i\<close> of \<open>Open\<close> returns an error.\<close>

definition attempt_fails :: "open_env \<Rightarrow> nat \<Rightarrow> bool" where
  "attempt_fails env i = (snd (openAndTest env i) \<noteq> None)"

text \<open>Every try before try \<open>n\<close> failed with an error that the \<open>Retry\<close> predicate accepts.\<close>

definition retried_until :: "Generic \<Rightarrow> (nat \<Rightarrow> error option) \<Rightarrow> nat \<Rightarrow> bool" where
  "retried_until d fails n =
     (\<forall>i<n. case fails i of None \<Rightarrow> False | Some e \<Rightarrow> retryable d e)"

text \<open>The error, if any, of the transaction at try \<open>i\<close> of \<open>Compact\<close>.\<close>

definition tx_errors :: "driver \<Rightarrow> nat \<Rightarrow> error option" where
  "tx_errors drv i = map_option snd (tx_fails drv i)"

text \<open>
  The statement goes through at try \<open>n\<close>: every earlier try failed with an error that
  the \<open>Retry\<close> predicate accepts, and try \<open>n\<close> is within the bound and does not fail.
\<close>

definition statement_runs :: "Generic \<Rightarrow> driver \<Rightarrow> nat \<Rightarrow> bool" where
  "statement_runs d drv n =
     (n < maxRetries \<and> exec_fails drv n = None \<and>
      (\<forall>i<n. case exec_fails drv i of None \<Rightarrow> False | Some e \<Rightarrow> retryable d e))"

subsection \<open>Example inputs\<close>

text \<open>
  A driver that never fails and one whose first \<open>ExecContext\<close> fails with a retried error;
  the log of the key \<open>foo\<close> after Create, Update, Delete and Create again, and its
  prefixes.
\<close>

definition good_driver :: driver where
  "good_driver =
     \<lparr>exec_fails = (\<lambda>i. None), rows_affected_fails = None, last_insert_id_fails = None,
      query_fails = (\<lambda>i. None), rows_err = None, scan_fails = None,
      tx_fails = (\<lambda>i. None)\<rparr>"

definition busy :: error where
  "busy = DriverError ''database is locked''"

definition broken :: error where
  "broken = DriverError ''connection refused''"

definition retry_busy :: Generic where
  "retry_busy = zero_Generic\<lparr>Retry := Some (\<lambda>e. e = busy)\<rparr>"

definition busy_once :: driver where
  "busy_once =
     good_driver\<lparr>exec_fails := (\<lambda>i. if i = 0 then Some busy else None),
                 query_fails := (\<lambda>i. if i = 0 then Some busy else None)\<rparr>"

definition foo_rows :: "row list" where
  "foo_rows =
     [\<lparr>kv_id = 1, kv_name = ''foo'', kv_created = 1, kv_deleted = 0, kv_create_revision = 0,
       kv_prev_revision = 0, kv_lease = 0, kv_value = Some ''1'', kv_old_value = None\<rparr>,
      \<lparr>kv_id = 2, kv_name = ''foo'', kv_created = 0, kv_deleted = 0, kv_create_revision = 1,
       kv_prev_revision = 1, kv_lease = 0, kv_value = Some ''2'', kv_old_value = Some ''1''\<rparr>,
      \<lparr>kv_id = 3, kv_name = ''foo'', kv_created = 0, kv_deleted = 1, kv_create_revision = 1,
       kv_prev_revision = 2, kv_lease = 0, kv_value = None, kv_old_value = Some ''2''\<rparr>,
      \<lparr>kv_id = 4, kv_name = ''foo'', kv_created = 1, kv_deleted = 0, kv_create_revision = 0,
       kv_prev_revision = 3, kv_lease = 0, kv_value = Some ''x'', kv_old_value = None\<rparr>]"

definition foo_db :: "nat \<Rightarrow> kine_db" where
  "foo_db n = \<lparr>kine = take n foo_rows, last_id = int n\<rparr>"

text \<open>A driver whose every \<open>ExecContext\<close> fails, and a \<open>TranslateErr\<close> function.\<close>

definition broken_driver :: driver where
  "broken_driver =
     good_driver\<lparr>exec_fails := (\<lambda>i. Some broken), query_fails := (\<lambda>i. Some broken)\<rparr>"


definition key_exists :: "error \<Rightarrow> error option" where
  "key_exists e = Some (Message ''key exists'')"

text \<open>
  A table with the marker row and the log of the key \<open>bar\<close> (created, updated, deleted,
  created again), and the same table after the compaction of the window \<open>(0, 4]\<close>, with
  the compact revision left as a parameter.
\<close>

definition marker_row :: "int \<Rightarrow> row" where
  "marker_row compact =
     \<lparr>kv_id = 1, kv_name = compact_rev_key, kv_created = 0, kv_deleted = 0,
      kv_create_revision = 0, kv_prev_revision = compact, kv_lease = 0, kv_value = None,
      kv_old_value = None\<rparr>"

definition bar_rows :: "row list" where
  "bar_rows =
     [\<lparr>kv_id = 2, kv_name = ''bar'', kv_created = 1, kv_deleted = 0, kv_create_revision = 0,
       kv_prev_revision = 0, kv_lease = 0, kv_value = Some ''1'', kv_old_value = None\<rparr>,
      \<lparr>kv_id = 3, kv_name = ''bar'', kv_created = 0, kv_deleted = 0, kv_create_revision = 2,
       kv_prev_revision = 2, kv_lease = 0, kv_value = Some ''2'', kv_old_value = Some ''1''\<rparr>,
      \<lparr>kv_id = 4, kv_name = ''bar'', kv_created = 0, kv_deleted = 1, kv_create_revision = 2,
       kv_prev_revision = 3, kv_lease = 0, kv_value = None, kv_old_value = Some ''2''\<rparr>,
      \<lparr>kv_id = 5, kv_name = ''bar'', kv_created = 1, kv_deleted = 0, kv_create_revision = 0,
       kv_prev_revision = 4, kv_lease = 0, kv_value = Some ''x'', kv_old_value = None\<rparr>]"

definition bar_db :: kine_db where
  "bar_db = \<lparr>kine = marker_row 0 # bar_rows, last_id = 5\<rparr>"

definition bar_db_compacted :: "int \<Rightarrow> kine_db" where
  "bar_db_compacted compact = \<lparr>kine = [marker_row compact, last bar_rows], last_id = 5\<rparr>"

text \<open>A driver whose transactions fail at \<open>BeginTx\<close>, and one whose transactions are busy.\<close>

definition tx_broken :: driver where
  "tx_broken = good_driver\<lparr>tx_fails := (\<lambda>i. Some (BeginTx, broken))\<rparr>"

definition tx_busy_once :: driver where
  "tx_busy_once =
     good_driver\<lparr>tx_fails := (\<lambda>i. if i = 0 then Some (Commit, busy) else None)\<rparr>"

definition tx_always_busy :: driver where
  "tx_always_busy = good_driver\<lparr>tx_fails := (\<lambda>i. Some (ExecDeleteSuperseded, busy))\<rparr>"

text \<open>
  A database that never answers, with a context that is never cancelled and with one
  that is cancelled during the third wait; and a pool configuration.
\<close>

definition unreachable :: open_env where
  "unreachable =
     \<lparr>sql_open_fails = (\<lambda>i. None), ping_fails = (\<lambda>i j. Some broken), ctx_done = (\<lambda>i. False)\<rparr>"

definition unreachable_cancelled :: open_env where
  "unreachable_cancelled = unreachable\<lparr>ctx_done := (\<lambda>i. i = 2)\<rparr>"

definition pool_config :: ConnectionPoolConfig where
  "pool_config = \<lparr>MaxIdle = 0, MaxOpen = 5, MaxLifetime = 0, MaxIdleTime = 0\<rparr>"

section \<open>Properties\<close>

subsection \<open>The retry loop\<close>

declare retry_loop.simps [simp del]

lemma retry_loop_decisive:
  assumes "k \<le> n" and "n < maxRetries"
    and "\<forall>i. k \<le> i \<and> i < n \<longrightarrow> (\<exists>r e. attempt i s = ((r, Some e), s) \<and> retryable d e)"
    and "attempt n s = ((r, err), s')"
    and "\<forall>e. err = Some e \<longrightarrow> \<not> retryable d e"
  shows "retry_loop d attempt k r0 e0 s = (n, r, err, s')"
  using assms
proof (induction "n - k" arbitrary: k r0 e0)
  case 0
  then have "k = n" by simp
  with 0 show ?case
    by (subst retry_loop.simps) (auto split: option.splits)
next
  case (Suc m)
  then have lt: "k < n" by simp
  with Suc.prems obtain r1 e1 where a: "attempt k s = ((r1, Some e1), s)" and rt: "retryable d e1"
    by blast
  have "retry_loop d attempt (k + 1) r1 (Some e1) s = (n, r, err, s')"
  proof (rule Suc.hyps(1))
    show "m = n - (k + 1)" using Suc.hyps(2) by simp
    show "k + 1 \<le> n" using lt by simp
    show "\<forall>i. k + 1 \<le> i \<and> i < n \<longrightarrow> (\<exists>r e. attempt i s = ((r, Some e), s) \<and> retryable d e)"
      using Suc.prems(3) by simp
  qed (use Suc.prems in auto)
  moreover have "k < maxRetries" using lt Suc.prems(2) by simp
  ultimately show ?case
    by (subst retry_loop.simps) (simp add: a rt)
qed

lemma retry_loop_exhausted:
  assumes "k < maxRetries"
    and "\<forall>i. k \<le> i \<and> i < maxRetries \<longrightarrow> (\<exists>r e. attempt i s = ((r, Some e), s) \<and> retryable d e)"
  shows "retry_loop d attempt k r0 e0 s =
           (maxRetries, fst (fst (attempt (maxRetries - 1) s)),
            snd (fst (attempt (maxRetries - 1) s)), s)"
  using assms
proof (induction "maxRetries - k" arbitrary: k r0 e0)
  case 0
  then show ?case by simp
next
  case (Suc m)
  from Suc.prems obtain r1 e1 where a: "attempt k s = ((r1, Some e1), s)" and rt: "retryable d e1"
    by blast
  show ?case
  proof (cases "k + 1 < maxRetries")
    case True
    have "retry_loop d attempt (k + 1) r1 (Some e1) s =
           (maxRetries, fst (fst (attempt (maxRetries - 1) s)),
            snd (fst (attempt (maxRetries - 1) s)), s)"
    proof (rule Suc.hyps(1))
      show "m = maxRetries - (k + 1)" using Suc.hyps(2) by simp
      show "k + 1 < maxRetries" by (rule True)
      show "\<forall>i. k + 1 \<le> i \<and> i < maxRetries \<longrightarrow>
              (\<exists>r e. attempt i s = ((r, Some e), s) \<and> retryable d e)"
        using Suc.prems(2) by simp
    qed
    then show ?thesis
      using Suc.prems(1) by (subst retry_loop.simps) (simp add: a rt)
  next
    case False
    then have k: "k = maxRetries - 1" using Suc.prems(1) by simp
    have stop: "retry_loop d attempt (k + 1) r1 (Some e1) s = (k + 1, r1, Some e1, s)"
      using False by (subst retry_loop.simps) simp
    have "k + 1 = maxRetries" using k Suc.prems(1) by simp
    with stop a show ?thesis
      using Suc.prems(1) k by (subst retry_loop.simps) (simp add: a rt)
  qed
qed

text \<open>Tries with an index of \<open>maxRetries\<close> or more are never made.\<close>

lemma retry_loop_cong:
  assumes "\<forall>i<maxRetries. attempt i = attempt' i"
  shows "retry_loop d attempt k r0 e0 s = retry_loop d attempt' k r0 e0 s"
  using assms
proof (induction d attempt k r0 e0 s rule: retry_loop.induct)
  case (1 d attempt retryCount result err s)
  show ?case
  proof (cases "retryCount < maxRetries")
    case True
    then have eq: "attempt retryCount s = attempt' retryCount s" using 1(2) by simp
    show ?thesis
      apply (subst retry_loop.simps)
      apply (subst (2) retry_loop.simps)
      using True eq 1
      by (auto split: prod.splits option.splits)
  next
    case False
    then show ?thesis
      by (subst retry_loop.simps, subst (2) retry_loop.simps) simp
  qed
qed

lemma retry_loop_count: "fst (retry_loop d attempt k r0 e0 s) \<le> max k maxRetries"
proof (induction d attempt k r0 e0 s rule: retry_loop.induct)
  case (1 d attempt retryCount result err s)
  show ?case
    apply (subst retry_loop.simps)
    using 1 by (auto split: prod.splits option.splits)
qed


subsection \<open>Running a statement\<close>

lemma execute_runs:
  assumes "statement_runs d drv n"
  shows "execute d drv stmt db = ((Some (result_of drv (fst (stmt db))), None), snd (stmt db))"
proof -
  have n: "n < maxRetries" and ok: "exec_fails drv n = None"
    and before: "\<forall>i<n. case exec_fails drv i of None \<Rightarrow> False | Some e \<Rightarrow> retryable d e"
    using assms by (simp_all add: statement_runs_def)
  have "retry_loop d (ExecContext drv stmt) 0 None None db =
          (n, Some (result_of drv (fst (stmt db))), None, snd (stmt db))"
  proof (rule retry_loop_decisive)
    show "\<forall>i. 0 \<le> i \<and> i < n \<longrightarrow>
            (\<exists>r e. ExecContext drv stmt i db = ((r, Some e), db) \<and> retryable d e)"
      using before by (auto simp: ExecContext_def split: option.splits)
    show "ExecContext drv stmt n db =
            ((Some (result_of drv (fst (stmt db))), None), snd (stmt db))"
      using ok by (simp add: ExecContext_def split: prod.splits)
  qed (use n in auto)
  then show ?thesis by (simp add: execute_def)
qed

lemma write_runs:
  assumes "statement_runs d drv n" and "rows_affected_fails drv = None"
    and "stmt db = ((cnt, lid), db')"
  shows "execute d drv stmt db = ((Some (result_of drv (cnt, lid)), None), db')"
    and "insert_outcome (Some (result_of drv (cnt, lid)), None) =
           (if cnt = 0 then Return (0, False, None)
            else (case last_insert_id_fails drv of
                    None \<Rightarrow> Return (lid, True, None)
                  | Some e \<Rightarrow> Return (0, True, Some e)))"
  using assms(2,3)
  by (simp_all add: execute_runs [OF assms(1)] insert_outcome_def result_of_def
      split: option.splits)

lemma retry_loop_ExecContext:
  assumes "k < maxRetries"
  shows "(\<exists>n<maxRetries. retry_loop d (ExecContext drv stmt) k r0 e0 db =
            (n, Some (result_of drv (fst (stmt db))), None, snd (stmt db))) \<or>
         (\<exists>n\<le>maxRetries. \<exists>i<maxRetries. \<exists>e. exec_fails drv i = Some e \<and>
            retry_loop d (ExecContext drv stmt) k r0 e0 db = (n, None, Some e, db))"
  using assms
proof (induction "maxRetries - k" arbitrary: k r0 e0)
  case 0
  then show ?case by simp
next
  case (Suc m)
  show ?case
  proof (cases "exec_fails drv k")
    case None
    then have "retry_loop d (ExecContext drv stmt) k r0 e0 db =
            (k, Some (result_of drv (fst (stmt db))), None, snd (stmt db))"
      using Suc.prems
      by (subst retry_loop.simps) (simp add: ExecContext_def split: prod.splits)
    with Suc.prems show ?thesis by blast
  next
    case (Some e)
    show ?thesis
    proof (cases "retryable d e")
      case False
      then have "retry_loop d (ExecContext drv stmt) k r0 e0 db = (k, None, Some e, db)"
        using Suc.prems Some by (subst retry_loop.simps) (simp add: ExecContext_def)
      moreover have "k \<le> maxRetries" using Suc.prems by simp
      ultimately show ?thesis using Some Suc.prems by blast
    next
      case True
      then have step: "retry_loop d (ExecContext drv stmt) k r0 e0 db =
              retry_loop d (ExecContext drv stmt) (k + 1) None (Some e) db"
        using Suc.prems Some by (subst retry_loop.simps) (simp add: ExecContext_def)
      show ?thesis
      proof (cases "k + 1 < maxRetries")
        case True
        have "m = maxRetries - (k + 1)" using Suc.hyps(2) by simp
        from Suc.hyps(1) [OF this True, of None "Some e"] step show ?thesis by simp
      next
        case False
        then have "retry_loop d (ExecContext drv stmt) (k + 1) None (Some e) db =
                     (k + 1, None, Some e, db)"
          by (subst retry_loop.simps) simp
        with step have "retry_loop d (ExecContext drv stmt) k r0 e0 db =
                     (k + 1, None, Some e, db)"
          by simp
        moreover have "k + 1 \<le> maxRetries" using Suc.prems by simp
        ultimately show ?thesis using Some Suc.prems by blast
      qed
    qed
  qed
qed

lemma execute_cases:
  "execute d drv stmt db = ((Some (result_of drv (fst (stmt db))), None), snd (stmt db)) \<or>
   (\<exists>n\<le>maxRetries. \<exists>i<maxRetries. \<exists>e. exec_fails drv i = Some e \<and>
      execute d drv stmt db = ((None, Some (TryError ''exec'' n e)), db))"
proof -
  have "0 < maxRetries" by (simp add: maxRetries_def)
  from retry_loop_ExecContext [OF this, of d drv stmt None None db]
  show ?thesis
  proof
    assume "\<exists>n<maxRetries. retry_loop d (ExecContext drv stmt) 0 None None db =
            (n, Some (result_of drv (fst (stmt db))), None, snd (stmt db))"
    then show ?thesis by (auto simp: execute_def)
  next
    assume "\<exists>n\<le>maxRetries. \<exists>i<maxRetries. \<exists>e. exec_fails drv i = Some e \<and>
            retry_loop d (ExecContext drv stmt) 0 None None db = (n, None, Some e, db)"
    then obtain n i e where "n \<le> maxRetries" "i < maxRetries" "exec_fails drv i = Some e"
      and "retry_loop d (ExecContext drv stmt) 0 None None db = (n, None, Some e, db)"
      by blast
    moreover from this(4)
    have "execute d drv stmt db = ((None, Some (TryError ''exec'' n e)), db)"
      by (simp add: execute_def)
    ultimately show ?thesis by blast
  qed
qed

lemma write_miss:
  assumes "stmt db = ((0, lid), db)"
  shows "snd (execute d drv stmt db) = db \<and>
         (\<exists>err. insert_outcome (fst (execute d drv stmt db)) = Return (0, False, err))"
  using execute_cases [of d drv stmt db] assms
  by (auto simp: insert_outcome_def result_of_def split: option.splits)

lemma execute_fails_at:
  assumes "n < maxRetries" and "exec_fails drv n = Some e" and "\<not> retryable d e"
    and "\<forall>i<n. \<exists>e'. exec_fails drv i = Some e' \<and> retryable d e'"
  shows "execute d drv stmt db = ((None, Some (TryError ''exec'' n e)), db)"
proof -
  have "retry_loop d (ExecContext drv stmt) 0 None None db = (n, None, Some e, db)"
  proof (rule retry_loop_decisive)
    show "\<forall>i. 0 \<le> i \<and> i < n \<longrightarrow>
            (\<exists>r e. ExecContext drv stmt i db = ((r, Some e), db) \<and> retryable d e)"
      using assms(4) by (auto simp: ExecContext_def)
    show "ExecContext drv stmt n db = ((None, Some e), db)"
      using assms(2) by (simp add: ExecContext_def)
  qed (use assms in auto)
  then show ?thesis by (simp add: execute_def)
qed

lemma retry_loop_same_policy:
  assumes "\<forall>e. retryable d e = retryable d' e"
  shows "retry_loop d attempt k r0 e0 s = retry_loop d' attempt k r0 e0 s"
  using assms
proof (induction d attempt k r0 e0 s rule: retry_loop.induct)
  case (1 d attempt retryCount result err s)
  show ?case
    apply (subst retry_loop.simps)
    apply (subst (2) retry_loop.simps)
    using 1 by (auto split: prod.splits option.splits)
qed

lemma retryable_TranslateErr: "retryable (d\<lparr>TranslateErr := t\<rparr>) e = retryable d e"
  by (simp add: retryable_def)

lemma execute_TranslateErr:
  "execute (d\<lparr>TranslateErr := t\<rparr>) drv stmt db = execute d drv stmt db"
  by (simp add: execute_def
      retry_loop_same_policy [where d = "d\<lparr>TranslateErr := t\<rparr>" and d' = d]
      retryable_TranslateErr)

lemma insert_outcome_error_source:
  assumes "insert_outcome (fst (execute d drv stmt db)) = Return (r, ok, Some e)"
  shows "(\<exists>n i e0. i < maxRetries \<and> exec_fails drv i = Some e0 \<and> e = TryError ''exec'' n e0) \<or>
         rows_affected_fails drv = Some e \<or> last_insert_id_fails drv = Some e"
  using execute_cases [of d drv stmt db]
proof
  assume "execute d drv stmt db = ((Some (result_of drv (fst (stmt db))), None), snd (stmt db))"
  with assms show ?thesis
    by (cases "fst (stmt db)")
      (auto simp: insert_outcome_def result_of_def split: option.splits if_splits)
next
  assume "\<exists>n\<le>maxRetries. \<exists>i<maxRetries. \<exists>e. exec_fails drv i = Some e \<and>
      execute d drv stmt db = ((None, Some (TryError ''exec'' n e)), db)"
  then obtain n i e0 where "i < maxRetries" "exec_fails drv i = Some e0"
    and "execute d drv stmt db = ((None, Some (TryError ''exec'' n e0)), db)"
    by blast
  with assms show ?thesis by (auto simp: insert_outcome_def)
qed

subsection \<open>The table\<close>

lemma fold_max_ge: "a \<le> fold max xs (a::int)"
  by (induction xs arbitrary: a) (auto intro: order_trans [OF max.cobounded2])

lemma fold_max_upper: "x \<in> set xs \<Longrightarrow> x \<le> fold max xs (a::int)"
proof (induction xs arbitrary: a)
  case Nil
  then show ?case by simp
next
  case (Cons y ys)
  show ?case
  proof (cases "x = y")
    case True
    have "y \<le> max y a" by simp
    also have "\<dots> \<le> fold max ys (max y a)" by (rule fold_max_ge)
    finally show ?thesis using True by simp
  next
    case False
    with Cons show ?thesis by simp
  qed
qed

lemma next_id_fresh: "r \<in> set (kine db) \<Longrightarrow> kv_id r < next_id db"
  using fold_max_upper [of "kv_id r" "map kv_id (kine db)" "last_id db"]
  by (simp add: next_id_def)

lemma max_row_mem: "max_row r rs \<in> set (r # rs)"
  unfolding max_row_def
proof (induction rs arbitrary: r)
  case Nil
  show ?case by simp
next
  case (Cons x xs)
  show ?case using Cons [of x] Cons [of r] by auto
qed

lemma max_row_ge_start: "kv_id r \<le> kv_id (max_row r rs)"
  unfolding max_row_def
proof (induction rs arbitrary: r)
  case Nil
  show ?case by simp
next
  case (Cons x xs)
  show ?case using Cons [of x] Cons [of r] by auto
qed

lemma max_row_upper: "x \<in> set (r # rs) \<Longrightarrow> kv_id x \<le> kv_id (max_row r rs)"
proof (induction rs arbitrary: r)
  case Nil
  then show ?case by (simp add: max_row_def)
next
  case (Cons y ys)
  have step: "max_row r (y # ys) = max_row (if kv_id r < kv_id y then y else r) ys"
    by (simp add: max_row_def)
  let ?r' = "if kv_id r < kv_id y then y else r"
  from Cons.prems consider "x = r" | "x = y" | "x \<in> set ys" by auto
  then show ?case
  proof cases
    case 1
    have "kv_id r \<le> kv_id ?r'" by simp
    also have "\<dots> \<le> kv_id (max_row ?r' ys)" by (rule max_row_ge_start)
    finally show ?thesis using 1 step by simp
  next
    case 2
    have "kv_id y \<le> kv_id ?r'" by simp
    also have "\<dots> \<le> kv_id (max_row ?r' ys)" by (rule max_row_ge_start)
    finally show ?thesis using 2 step by simp
  next
    case 3
    then have "kv_id x \<le> kv_id (max_row ?r' ys)" by (intro Cons.IH) simp
    then show ?thesis using step by simp
  qed
qed

lemma no_row_filter: "no_row_for rows key \<longleftrightarrow> filter (\<lambda>r. kv_name r = key) rows = []"
  by (simp add: no_row_for_def filter_empty_conv)

lemma maxkv_None: "fst (maxkv rows key) = None \<longleftrightarrow> no_row_for rows key"
  by (cases "filter (\<lambda>r. kv_name r = key) rows") (simp_all add: maxkv_def no_row_filter Let_def)

lemma maxkv_None_snd: "no_row_for rows key \<Longrightarrow> maxkv rows key = (None, None)"
  by (simp add: maxkv_def no_row_filter)

lemma maxkv_Some:
  assumes "\<not> no_row_for rows key"
  shows "\<exists>m. is_latest rows key m \<and> maxkv rows key = (Some (kv_id m), Some (kv_deleted m))"
proof -
  obtain r rs where f: "filter (\<lambda>r. kv_name r = key) rows = r # rs"
    using assms by (cases "filter (\<lambda>r. kv_name r = key) rows") (simp_all add: no_row_filter)
  let ?m = "max_row r rs"
  have "?m \<in> set (filter (\<lambda>r. kv_name r = key) rows)"
    using max_row_mem [of r rs] f by simp
  then have mem: "?m \<in> set rows" and nm: "kv_name ?m = key" by auto
  have "kv_id x \<le> kv_id ?m" if "x \<in> set rows" "kv_name x = key" for x
  proof -
    from that have "x \<in> set (filter (\<lambda>r. kv_name r = key) rows)" by simp
    then have "x \<in> set (r # rs)" using f by simp
    then show ?thesis by (rule max_row_upper)
  qed
  then have "is_latest rows key ?m" using mem nm by (simp add: is_latest_def)
  moreover have "maxkv rows key = (Some (kv_id ?m), Some (kv_deleted ?m))"
    using f by (simp add: maxkv_def Let_def)
  ultimately show ?thesis by blast
qed

lemma same_id_same_row:
  assumes "distinct (map kv_id rows)" "r \<in> set rows" "r' \<in> set rows" "kv_id r = kv_id r'"
  shows "r = r'"
  using assms by (meson distinct_map inj_on_def)

lemma is_latest_unique:
  assumes "distinct (map kv_id rows)" "is_latest rows key r" "is_latest rows key r'"
  shows "r = r'"
proof -
  have "kv_id r = kv_id r'" using assms(2,3) by (auto simp: is_latest_def intro: antisym)
  with assms show ?thesis by (auto simp: is_latest_def intro: same_id_same_row)
qed

subsection \<open>Create\<close>

lemma insert_select_Nil: "insert_select [] db = ((0, last_id db), db)"
  by (simp add: insert_select_def)

lemma insert_select_single:
  "insert_select [r] db =
     ((1, next_id db), db\<lparr>kine := kine db @ [r\<lparr>kv_id := next_id db\<rparr>], last_id := next_id db\<rparr>)"
  by (simp add: insert_select_def insert_row_def Let_def)

lemma create_condition:
  assumes "distinct (map kv_id rows)"
  shows "(snd (maxkv rows key) = Some 1 \<or> fst (maxkv rows key) = None) \<longleftrightarrow>
         (no_row_for rows key \<or> latest_is_tombstone rows key)"
proof (cases "no_row_for rows key")
  case True
  then show ?thesis by (simp add: maxkv_None)
next
  case False
  then obtain m where m: "is_latest rows key m"
    and kv: "maxkv rows key = (Some (kv_id m), Some (kv_deleted m))"
    using maxkv_Some by blast
  have "latest_is_tombstone rows key \<longleftrightarrow> kv_deleted m = 1"
  proof
    assume "latest_is_tombstone rows key"
    then obtain r where "is_latest rows key r" "kv_deleted r = 1"
      by (auto simp: latest_is_tombstone_def)
    with m assms show "kv_deleted m = 1" using is_latest_unique by blast
  next
    assume "kv_deleted m = 1"
    with m show "latest_is_tombstone rows key"
      by (auto simp: latest_is_tombstone_def is_latest_def)
  qed
  with False kv show ?thesis by simp
qed

lemma live_not_creatable:
  assumes "distinct (map kv_id rows)" "latest_is_live rows key"
  shows "\<not> (no_row_for rows key \<or> latest_is_tombstone rows key)"
proof
  assume a: "no_row_for rows key \<or> latest_is_tombstone rows key"
  from assms(2) obtain r where r: "is_latest rows key r" "kv_deleted r = 0"
    by (auto simp: latest_is_live_def)
  then have "\<not> no_row_for rows key" by (auto simp: no_row_for_def is_latest_def)
  with a obtain t where "is_latest rows key t" "kv_deleted t = 1"
    by (auto simp: latest_is_tombstone_def)
  with r assms(1) show False using is_latest_unique by fastforce
qed

lemma CreateSQL_inserts:
  assumes "distinct (map kv_id (kine db))"
    and "no_row_for (kine db) key \<or> latest_is_tombstone (kine db) key"
  shows "CreateSQL key ttl val key db =
           ((1, next_id db),
            db\<lparr>kine := kine db @
                    [created_row key ttl val
                       (case fst (maxkv (kine db) key) of None \<Rightarrow> 0 | Some i \<Rightarrow> i) (next_id db)],
               last_id := next_id db\<rparr>)"
proof -
  have c: "snd (maxkv (kine db) key) = Some 1 \<or> fst (maxkv (kine db) key) = None"
    using assms by (simp add: create_condition)
  show ?thesis
    using c
    by (cases "maxkv (kine db) key")
      (auto simp: CreateSQL_def insert_select_single created_row_def)
qed

lemma CreateSQL_skips:
  assumes "distinct (map kv_id (kine db))"
    and "\<not> (no_row_for (kine db) key \<or> latest_is_tombstone (kine db) key)"
  shows "CreateSQL key ttl val key db = ((0, last_id db), db)"
proof -
  have c: "\<not> (snd (maxkv (kine db) key) = Some 1 \<or> fst (maxkv (kine db) key) = None)"
    using assms by (simp add: create_condition)
  show ?thesis
    using c by (cases "maxkv (kine db) key") (auto simp: CreateSQL_def insert_select_Nil)
qed

lemma Create_runs:
  assumes "statement_runs d drv n" and "rows_affected_fails drv = None"
    and "CreateSQL key ttl val key db = ((cnt, lid), db')"
  shows "Create d drv key val ttl db =
          (if cnt = 0 then Return (0, False, None)
           else (case last_insert_id_fails drv of
                   None \<Rightarrow> Return (lid, True, None)
                 | Some e \<Rightarrow> Return (0, True, translate_deferred d (Some e))), db')"
  using assms(2,3)
  by (simp add: Create_def execute_runs [OF assms(1)] insert_outcome_def apply_deferred_def
      result_of_def translate_deferred_def split: option.splits)

text \<open>
  C1. Let the statement of \<open>Create\<close> go through without a driver error (some try within
  the bound succeeds after retried failures, and \<open>RowsAffected\<close> does not fail). Then
  exactly one new row, with the key as its name, \<open>created = 1\<close> and \<open>deleted = 0\<close>, is
  appended to the table if and only if the key has no row or its latest row is a
  tombstone; in that case the call returns the id of the new row and \<open>true\<close>; and when the
  latest row is live the table is unchanged and the call returns \<open>(0, false, nil)\<close>.
\<close>

theorem Create_spec:
  assumes ids: "distinct (map kv_id (kine db))"
    and runs: "statement_runs d drv n"
    and ra: "rows_affected_fails drv = None"
  shows "((\<exists>r. kine (snd (Create d drv key val ttl db)) = kine db @ [r] \<and>
              kv_name r = key \<and> kv_created r = 1 \<and> kv_deleted r = 0) \<longleftrightarrow>
          (no_row_for (kine db) key \<or> latest_is_tombstone (kine db) key)) \<and>
         (no_row_for (kine db) key \<or> latest_is_tombstone (kine db) key \<longrightarrow>
          last_insert_id_fails drv = None \<longrightarrow>
          (\<exists>r. Create d drv key val ttl db =
                  (Return (kv_id r, True, None), db\<lparr>kine := kine db @ [r], last_id := kv_id r\<rparr>) \<and>
                kv_name r = key \<and> kv_created r = 1 \<and> kv_deleted r = 0 \<and>
                (\<forall>r' \<in> set (kine db). kv_id r' < kv_id r))) \<and>
         (latest_is_live (kine db) key \<longrightarrow>
          Create d drv key val ttl db = (Return (0, False, None), db))"
proof (cases "no_row_for (kine db) key \<or> latest_is_tombstone (kine db) key")
  case True
  define r where "r = created_row key ttl val
      (case fst (maxkv (kine db) key) of None \<Rightarrow> 0 | Some i \<Rightarrow> i) (next_id db)"
  have sql: "CreateSQL key ttl val key db =
               ((1, kv_id r), db\<lparr>kine := kine db @ [r], last_id := kv_id r\<rparr>)"
    using CreateSQL_inserts [OF ids True, of ttl val] by (simp add: r_def created_row_def)
  have r: "kv_id r = next_id db" "kv_name r = key" "kv_created r = 1" "kv_deleted r = 0"
    by (simp_all add: r_def created_row_def)
  have fresh: "\<forall>r' \<in> set (kine db). kv_id r' < kv_id r"
    using r(1) next_id_fresh by simp
  have tab: "kine (snd (Create d drv key val ttl db)) = kine db @ [r]"
    by (simp add: Create_runs [OF runs ra sql])
  have ret: "Create d drv key val ttl db =
      (Return (kv_id r, True, None), db\<lparr>kine := kine db @ [r], last_id := kv_id r\<rparr>)"
    if "last_insert_id_fails drv = None"
    using that by (simp add: Create_runs [OF runs ra sql])
  have "\<not> latest_is_live (kine db) key"
    using live_not_creatable [OF ids] True by blast
  with True tab r fresh ret show ?thesis by blast
next
  case False
  have sql: "CreateSQL key ttl val key db = ((0, last_id db), db)"
    using ids False by (rule CreateSQL_skips)
  have ret: "Create d drv key val ttl db = (Return (0, False, None), db)"
    by (simp add: Create_runs [OF runs ra sql])
  then have "\<not> (\<exists>r. kine (snd (Create d drv key val ttl db)) = kine db @ [r] \<and>
              kv_name r = key \<and> kv_created r = 1 \<and> kv_deleted r = 0)"
    by simp
  with False ret show ?thesis by blast
qed


lemma statement_runs_busy_once: "statement_runs retry_busy busy_once 1"
  by (simp add: statement_runs_def busy_once_def good_driver_def maxRetries_def retry_busy_def
      retryable_def)

lemma foo_db_simps:
  "kine (foo_db n) = take n foo_rows" "last_id (foo_db n) = int n"
  by (simp_all add: foo_db_def)

lemma tomb3: "latest_is_tombstone (kine (foo_db 3)) ''foo''"
  by (simp add: latest_is_tombstone_def is_latest_def foo_db_def foo_rows_def)

lemma live2: "latest_is_live (kine (foo_db 2)) ''foo''"
  by (simp add: latest_is_live_def is_latest_def foo_db_def foo_rows_def)

theorem Create_spec_witness:
  "distinct (map kv_id (kine (foo_db 3))) \<and> statement_runs retry_busy busy_once 1 \<and>
   rows_affected_fails busy_once = None \<and> last_insert_id_fails busy_once = None \<and>
   latest_is_tombstone (kine (foo_db 3)) ''foo'' \<and>
   latest_is_live (kine (foo_db 2)) ''foo'' \<and>
   (\<exists>r. Create retry_busy busy_once ''foo'' ''x'' 0 (foo_db 3) =
          (Return (kv_id r, True, None), (foo_db 3)\<lparr>kine := kine (foo_db 3) @ [r], last_id := kv_id r\<rparr>) \<and>
        kv_name r = ''foo'' \<and> kv_created r = 1 \<and> kv_deleted r = 0 \<and>
        (\<forall>r' \<in> set (kine (foo_db 3)). kv_id r' < kv_id r)) \<and>
   Create retry_busy busy_once ''foo'' ''x'' 0 (foo_db 2) = (Return (0, False, None), foo_db 2)"
proof -
  have ids3: "distinct (map kv_id (kine (foo_db 3)))"
    by (simp add: foo_db_def foo_rows_def)
  have ids2: "distinct (map kv_id (kine (foo_db 2)))"
    by (simp add: foo_db_def foo_rows_def)
  have ra: "rows_affected_fails busy_once = None" and li: "last_insert_id_fails busy_once = None"
    by (simp_all add: busy_once_def good_driver_def)
  show ?thesis
    using Create_spec [OF ids3 statement_runs_busy_once ra, of "''foo''" "''x''" 0]
      Create_spec [OF ids2 statement_runs_busy_once ra, of "''foo''" "''x''" 0]
      ids3 statement_runs_busy_once ra li tomb3 live2
    by blast
qed

subsection \<open>Compare and swap\<close>

lemma filter_unique_id:
  assumes "distinct (map kv_id rows)" and "\<forall>r. P r \<longrightarrow> kv_id r = i"
  shows "filter P rows = [] \<or> (\<exists>m. filter P rows = [m])"
  using assms(1)
proof (induction rows)
  case Nil
  show ?case by simp
next
  case (Cons x xs)
  show ?case
  proof (cases "P x")
    case True
    then have "kv_id x = i" using assms(2) by simp
    moreover have "kv_id x \<notin> kv_id ` set xs" using Cons.prems by simp
    ultimately have "\<forall>y \<in> set xs. \<not> P y" using assms(2) by (metis imageI)
    then have "filter P xs = []" by (simp add: filter_empty_conv)
    with True show ?thesis by simp
  next
    case False
    with Cons show ?thesis by simp
  qed
qed

lemma cas_rows_cases:
  assumes "distinct (map kv_id rows)"
  shows "cas_rows rows key revision = [] \<or>
         (\<exists>m. cas_rows rows key revision = [m] \<and> is_latest rows key m \<and>
              kv_deleted m = 0 \<and> kv_id m = revision)"
proof -
  let ?P = "\<lambda>r. Some (kv_id r) = max_id rows key \<and> kv_deleted r = 0 \<and> kv_id r = revision"
  have "filter ?P rows = [] \<or> (\<exists>m. filter ?P rows = [m])"
    using filter_unique_id [where P = ?P and i = revision, OF assms] by simp
  then show ?thesis
  proof
    assume "filter ?P rows = []"
    then show ?thesis by (simp add: cas_rows_def)
  next
    assume "\<exists>m. filter ?P rows = [m]"
    then obtain m where f: "filter ?P rows = [m]" ..
    then have "m \<in> set (filter ?P rows)" by simp
    then have m: "m \<in> set rows" "Some (kv_id m) = max_id rows key" "kv_deleted m = 0"
      "kv_id m = revision" by auto
    then have "\<not> no_row_for rows key"
      using maxkv_None [of rows key] by (auto simp: max_id_def)
    then obtain l where l: "is_latest rows key l"
      and kv: "maxkv rows key = (Some (kv_id l), Some (kv_deleted l))"
      using maxkv_Some by blast
    have "kv_id m = kv_id l" using m(2) kv by (simp add: max_id_def)
    moreover have "l \<in> set rows" using l by (simp add: is_latest_def)
    ultimately have "m = l" using assms m(1) same_id_same_row by blast
    with l m f show ?thesis by (auto simp: cas_rows_def)
  qed
qed

lemma cas_rows_miss:
  assumes "distinct (map kv_id rows)"
    and "\<not> (\<exists>r \<in> set rows. is_latest rows key r \<and> kv_deleted r = 0 \<and> kv_id r = revision)"
  shows "cas_rows rows key revision = []"
  using cas_rows_cases [OF assms(1), of key revision] assms(2)
  by (auto simp: is_latest_def)

lemma ids_foo: "distinct (map kv_id (kine (foo_db n)))"
proof -
  have "distinct (map kv_id foo_rows)" by (simp add: foo_rows_def)
  then show ?thesis by (simp add: foo_db_def take_map [symmetric])
qed

text \<open>
  C2. A compare-and-swap miss is not an error. With unique ids: a \<open>Create\<close> on a key whose
  latest row is live, and an \<open>Update\<close> or \<open>Delete\<close> whose expected revision is not the id
  of a live latest row of the key, insert no row and return revision 0 and \<open>false\<close>,
  whatever the driver does; and the error returned is nil whenever the statement goes
  through and \<open>RowsAffected\<close> does not fail, so a non-nil error can only come from the
  driver.
\<close>

theorem cas_miss_spec:
  assumes ids: "distinct (map kv_id (kine db))"
  shows "(latest_is_live (kine db) key \<longrightarrow>
            snd (Create d drv key val ttl db) = db \<and>
            (\<exists>err. fst (Create d drv key val ttl db) = Return (0, False, err)) \<and>
            (statement_runs d drv n \<and> rows_affected_fails drv = None \<longrightarrow>
               Create d drv key val ttl db = (Return (0, False, None), db))) \<and>
         (\<not> (\<exists>r \<in> set (kine db). is_latest (kine db) key r \<and> kv_deleted r = 0 \<and>
                kv_id r = preRev) \<longrightarrow>
            snd (Update d drv key val preRev ttl db) = db \<and>
            (\<exists>err. fst (Update d drv key val preRev ttl db) = Return (0, False, err)) \<and>
            snd (Delete d drv key preRev db) = db \<and>
            (\<exists>err. fst (Delete d drv key preRev db) = Return (0, False, err)) \<and>
            (statement_runs d drv n \<and> rows_affected_fails drv = None \<longrightarrow>
               Update d drv key val preRev ttl db = (Return (0, False, None), db) \<and>
               Delete d drv key preRev db = (Return (0, False, None), db)))"
proof (intro conjI impI)
  assume live: "latest_is_live (kine db) key"
  then have sql: "CreateSQL key ttl val key db = ((0, last_id db), db)"
    using ids live_not_creatable CreateSQL_skips by blast
  from write_miss [where stmt = "CreateSQL key ttl val key", OF sql, of d drv]
  show "snd (Create d drv key val ttl db) = db"
    and "\<exists>err. fst (Create d drv key val ttl db) = Return (0, False, err)"
    by (auto simp: Create_def apply_deferred_def split: prod.splits)
  assume "statement_runs d drv n \<and> rows_affected_fails drv = None"
  then have "statement_runs d drv n" and "rows_affected_fails drv = None"
    by simp_all
  from Create_runs [OF this sql]
  show "Create d drv key val ttl db = (Return (0, False, None), db)"
    by simp
next
  assume "\<not> (\<exists>r \<in> set (kine db). is_latest (kine db) key r \<and> kv_deleted r = 0 \<and>
                kv_id r = preRev)"
  then have miss: "cas_rows (kine db) key preRev = []"
    using ids by (rule cas_rows_miss [rotated])
  have u: "UpdateSQL key ttl val key preRev db = ((0, last_id db), db)"
    by (simp add: UpdateSQL_def miss insert_select_Nil)
  have dl: "DeleteSQL key preRev db = ((0, last_id db), db)"
    by (simp add: DeleteSQL_def miss insert_select_Nil)
  from write_miss [where stmt = "UpdateSQL key ttl val key preRev", OF u, of d drv]
  show "snd (Update d drv key val preRev ttl db) = db"
    and "\<exists>err. fst (Update d drv key val preRev ttl db) = Return (0, False, err)"
    by (auto simp: Update_def apply_deferred_def split: prod.splits)
  from write_miss [where stmt = "DeleteSQL key preRev", OF dl, of d drv]
  show "snd (Delete d drv key preRev db) = db"
    and "\<exists>err. fst (Delete d drv key preRev db) = Return (0, False, err)"
    by (auto simp: Delete_def apply_deferred_def split: prod.splits)
  assume "statement_runs d drv n \<and> rows_affected_fails drv = None"
  then have runs: "statement_runs d drv n" and ra: "rows_affected_fails drv = None"
    by simp_all
  show "Update d drv key val preRev ttl db = (Return (0, False, None), db)"
    by (simp add: Update_def write_runs [where stmt = "UpdateSQL key ttl val key preRev", OF runs ra u]
        apply_deferred_def translate_deferred_def)
  show "Delete d drv key preRev db = (Return (0, False, None), db)"
    by (simp add: Delete_def write_runs [where stmt = "DeleteSQL key preRev", OF runs ra dl]
        apply_deferred_def)
qed

theorem cas_miss_spec_witness:
  "distinct (map kv_id (kine (foo_db 2))) \<and> statement_runs retry_busy busy_once 1 \<and>
   rows_affected_fails busy_once = None \<and>
   latest_is_live (kine (foo_db 2)) ''foo'' \<and>
   \<not> (\<exists>r \<in> set (kine (foo_db 2)). is_latest (kine (foo_db 2)) ''foo'' r \<and> kv_deleted r = 0 \<and>
          kv_id r = 1) \<and>
   Create retry_busy busy_once ''foo'' ''3'' 0 (foo_db 2) = (Return (0, False, None), foo_db 2) \<and>
   Update retry_busy busy_once ''foo'' ''3'' 1 0 (foo_db 2) = (Return (0, False, None), foo_db 2) \<and>
   Delete retry_busy busy_once ''foo'' 1 (foo_db 2) = (Return (0, False, None), foo_db 2)"
proof -
  have ra: "rows_affected_fails busy_once = None"
    by (simp add: busy_once_def good_driver_def)
  have stale: "\<not> (\<exists>r \<in> set (kine (foo_db 2)). is_latest (kine (foo_db 2)) ''foo'' r \<and>
                 kv_deleted r = 0 \<and> kv_id r = 1)"
    by (simp add: is_latest_def foo_db_def foo_rows_def)
  show ?thesis
    using cas_miss_spec [OF ids_foo, of 2 "''foo''" retry_busy busy_once "''3''" 0 1 1]
      ids_foo [of 2] statement_runs_busy_once ra live2 stale
    by blast
qed

subsection \<open>Error translation\<close>

text \<open>
  C10. \<open>Delete\<close> does not depend on \<open>TranslateErr\<close>: with any setting it returns what it
  returns with none, and a non-nil error it returns is what the driver produced (the
  error of a failed \<open>ExecContext\<close> as wrapped by \<open>execute\<close>, or the error of
  \<open>RowsAffected\<close> or \<open>LastInsertId\<close>). \<open>Create\<close> and \<open>Update\<close> with \<open>TranslateErr\<close> set to \<open>f\<close>
  return the results of the untranslated call with \<open>f\<close> applied to every non-nil error.
\<close>

theorem translate_spec:
  "Delete (d\<lparr>TranslateErr := t\<rparr>) drv key revision db =
     Delete (d\<lparr>TranslateErr := None\<rparr>) drv key revision db \<and>
   (\<forall>r ok e db'. Delete d drv key revision db = (Return (r, ok, Some e), db') \<longrightarrow>
      (\<exists>n i e0. i < maxRetries \<and> exec_fails drv i = Some e0 \<and> e = TryError ''exec'' n e0) \<or>
      rows_affected_fails drv = Some e \<or> last_insert_id_fails drv = Some e) \<and>
   Create (d\<lparr>TranslateErr := Some f\<rparr>) drv key val ttl db =
     (case Create (d\<lparr>TranslateErr := None\<rparr>) drv key val ttl db of
        (out, db') \<Rightarrow>
          (apply_deferred (\<lambda>err. case err of None \<Rightarrow> None | Some e \<Rightarrow> f e) out, db')) \<and>
   Update (d\<lparr>TranslateErr := Some f\<rparr>) drv key val preRev ttl db =
     (case Update (d\<lparr>TranslateErr := None\<rparr>) drv key val preRev ttl db of
        (out, db') \<Rightarrow>
          (apply_deferred (\<lambda>err. case err of None \<Rightarrow> None | Some e \<Rightarrow> f e) out, db'))"
proof (intro conjI allI impI)
  show "Delete (d\<lparr>TranslateErr := t\<rparr>) drv key revision db =
     Delete (d\<lparr>TranslateErr := None\<rparr>) drv key revision db"
    by (simp add: Delete_def execute_TranslateErr)
next
  fix r ok e db'
  assume "Delete d drv key revision db = (Return (r, ok, Some e), db')"
  then have "insert_outcome (fst (execute d drv (DeleteSQL key revision) db)) =
      Return (r, ok, Some e)"
    by (auto simp: Delete_def apply_deferred_def split: prod.splits go.splits)
  then show "(\<exists>n i e0. i < maxRetries \<and> exec_fails drv i = Some e0 \<and> e = TryError ''exec'' n e0) \<or>
      rows_affected_fails drv = Some e \<or> last_insert_id_fails drv = Some e"
    by (rule insert_outcome_error_source)
next
  show "Create (d\<lparr>TranslateErr := Some f\<rparr>) drv key val ttl db =
     (case Create (d\<lparr>TranslateErr := None\<rparr>) drv key val ttl db of
        (out, db') \<Rightarrow>
          (apply_deferred (\<lambda>err. case err of None \<Rightarrow> None | Some e \<Rightarrow> f e) out, db'))"
    by (auto simp: Create_def execute_TranslateErr apply_deferred_def translate_deferred_def
        split: prod.splits go.splits option.splits)
next
  show "Update (d\<lparr>TranslateErr := Some f\<rparr>) drv key val preRev ttl db =
     (case Update (d\<lparr>TranslateErr := None\<rparr>) drv key val preRev ttl db of
        (out, db') \<Rightarrow>
          (apply_deferred (\<lambda>err. case err of None \<Rightarrow> None | Some e \<Rightarrow> f e) out, db'))"
    by (auto simp: Update_def execute_TranslateErr apply_deferred_def translate_deferred_def
        split: prod.splits go.splits option.splits)
qed

lemma execute_broken:
  "execute (zero_Generic\<lparr>TranslateErr := t\<rparr>) broken_driver stmt db =
     ((None, Some (TryError ''exec'' 0 broken)), db)"
  by (rule execute_fails_at)
    (simp_all add: maxRetries_def broken_driver_def retryable_def zero_Generic_def)

theorem translate_spec_witness:
  "Delete (zero_Generic\<lparr>TranslateErr := Some key_exists\<rparr>) broken_driver ''foo'' 2 (foo_db 2) =
     (Return (0, False, Some (TryError ''exec'' 0 broken)), foo_db 2) \<and>
   Delete zero_Generic broken_driver ''foo'' 2 (foo_db 2) =
     (Return (0, False, Some (TryError ''exec'' 0 broken)), foo_db 2) \<and>
   exec_fails broken_driver 0 = Some broken \<and>
   Create (zero_Generic\<lparr>TranslateErr := Some key_exists\<rparr>) broken_driver ''foo'' ''x'' 0 (foo_db 2) =
     (Return (0, False, Some (Message ''key exists'')), foo_db 2) \<and>
   Update (zero_Generic\<lparr>TranslateErr := Some key_exists\<rparr>) broken_driver ''foo'' ''x'' 2 0 (foo_db 2) =
     (Return (0, False, Some (Message ''key exists'')), foo_db 2)"
proof -
  have del: "Delete (zero_Generic\<lparr>TranslateErr := None\<rparr>) broken_driver ''foo'' 2 (foo_db 2) =
     (Return (0, False, Some (TryError ''exec'' 0 broken)), foo_db 2)"
    by (simp add: Delete_def execute_broken insert_outcome_def apply_deferred_def)
  have cre: "Create (zero_Generic\<lparr>TranslateErr := None\<rparr>) broken_driver ''foo'' ''x'' 0 (foo_db 2) =
     (Return (0, False, Some (TryError ''exec'' 0 broken)), foo_db 2)"
    by (simp add: Create_def execute_broken insert_outcome_def apply_deferred_def
        translate_deferred_def)
  have upd: "Update (zero_Generic\<lparr>TranslateErr := None\<rparr>) broken_driver ''foo'' ''x'' 2 0 (foo_db 2) =
     (Return (0, False, Some (TryError ''exec'' 0 broken)), foo_db 2)"
    by (simp add: Update_def execute_broken insert_outcome_def apply_deferred_def
        translate_deferred_def)
  have del0: "Delete zero_Generic broken_driver ''foo'' 2 (foo_db 2) =
     (Return (0, False, Some (TryError ''exec'' 0 broken)), foo_db 2)"
    using del by (simp add: zero_Generic_def)
  have ex: "exec_fails broken_driver 0 = Some broken"
    by (simp add: broken_driver_def)
  show ?thesis
    using translate_spec [where d = zero_Generic and t = "Some key_exists"
        and drv = broken_driver and key = "''foo''" and revision = 2 and db = "foo_db 2"
        and f = key_exists and val = "''x''" and ttl = 0 and preRev = 2]
      del del0 cre upd ex
    by (simp add: apply_deferred_def key_exists_def)
qed

subsection \<open>Re-creating a deleted key\<close>
















subsection \<open>Retries of query and execute\<close>

lemma retried_untilD:
  "retried_until d fails n \<Longrightarrow> i < n \<Longrightarrow> \<exists>e. fails i = Some e \<and> retryable d e"
  by (auto simp: retried_until_def split: option.splits)





lemma query_runs:
  assumes "n < maxRetries" and "query_fails drv n = None"
    and "retried_until d (query_fails drv) n"
  shows "query d drv sel db = (Some (sel db), None)"
proof -
  have "retry_loop d (QueryContext drv sel) 0 None None db = (n, Some (sel db), None, db)"
  proof (rule retry_loop_decisive)
    show "\<forall>i. 0 \<le> i \<and> i < n \<longrightarrow>
            (\<exists>r e. QueryContext drv sel i db = ((r, Some e), db) \<and> retryable d e)"
      using retried_untilD [OF assms(3)] by (fastforce simp: QueryContext_def)
    show "QueryContext drv sel n db = ((Some (sel db), None), db)"
      using assms(2) by (simp add: QueryContext_def)
  qed (use assms in auto)
  then show ?thesis by (simp add: query_def)
qed

lemma query_fails_at:
  assumes "n < maxRetries" and "query_fails drv n = Some e" and "\<not> retryable d e"
    and "retried_until d (query_fails drv) n"
  shows "query d drv sel db = (None, Some (TryError ''query'' n e))"
proof -
  have "retry_loop d (QueryContext drv sel) 0 None None db = (n, None, Some e, db)"
  proof (rule retry_loop_decisive)
    show "\<forall>i. 0 \<le> i \<and> i < n \<longrightarrow>
            (\<exists>r e. QueryContext drv sel i db = ((r, Some e), db) \<and> retryable d e)"
      using retried_untilD [OF assms(4)] by (fastforce simp: QueryContext_def)
    show "QueryContext drv sel n db = ((None, Some e), db)"
      using assms(2) by (simp add: QueryContext_def)
  qed (use assms in auto)
  then show ?thesis by (simp add: query_def)
qed






subsection \<open>One compaction transaction\<close>

lemma superseded_iff:
  "kv_id r \<notin> set (map kv_prev_revision (filter P rows)) \<longleftrightarrow>
   \<not> (\<exists>r' \<in> set rows. P r' \<and> kv_prev_revision r' = kv_id r)"
  by (force simp: image_iff)

lemma compaction_pass_steps:
  "UpdateCompactSQL endRev (delete_tombstones start endRev (delete_superseded start endRev rows)) =
   compaction_pass start endRev rows"
  unfolding UpdateCompactSQL_def delete_tombstones_def delete_superseded_def compaction_pass_def
    Let_def filter_filter superseded_iff
  by (rule arg_cong [where f = "map _"], rule filter_cong) auto

lemma tryCompact_cases:
  "tryCompact fail start endRev db =
     (case fail of
        None \<Rightarrow> (None, db\<lparr>kine := compaction_pass start endRev (kine db)\<rparr>)
      | Some (st, e) \<Rightarrow> (Some e, db))"
proof (cases fail)
  case None
  then show ?thesis
    by (simp add: tryCompact_def step_fails_def Let_def compaction_pass_steps)
next
  case (Some a)
  obtain st e where "a = (st, e)" by (cases a)
  with Some show ?thesis
    by (cases st) (simp_all add: tryCompact_def step_fails_def Let_def)
qed

text \<open>
  C3. One try of the compaction of the window \<open>(start, end]\<close> either commits, and then
  the table is the old one changed by exactly (a) the removal of the superseded rows, (b)
  the removal of the tombstones of the window and (c) the new value
  \<open>max prev_revision end\<close> of the marker row, with no error returned; or a step of the
  transaction (begin, one of the three statements, commit) fails, and then that error is
  returned and the table is unchanged.
\<close>

theorem tryCompact_spec:
  "tryCompact fail start endRev db =
     (case fail of
        None \<Rightarrow> (None, db\<lparr>kine := compaction_pass start endRev (kine db)\<rparr>)
      | Some (st, e) \<Rightarrow> (Some e, db))"
  by (rule tryCompact_cases)

lemma bar_pass: "compaction_pass 0 4 (kine bar_db) = kine (bar_db_compacted 4)"
  by (simp add: compaction_pass_def bar_db_def bar_db_compacted_def bar_rows_def marker_row_def
      compact_rev_key_def)

theorem tryCompact_spec_witness:
  "tryCompact None 0 4 bar_db = (None, bar_db_compacted 4) \<and>
   tryCompact (Some (ExecDeleteTombstones, busy)) 0 4 bar_db = (Some busy, bar_db) \<and>
   tryCompact (Some (Commit, broken)) 0 4 bar_db = (Some broken, bar_db)"
  using tryCompact_spec [of None 0 4 bar_db]
    tryCompact_spec [of "Some (ExecDeleteTombstones, busy)" 0 4 bar_db]
    tryCompact_spec [of "Some (Commit, broken)" 0 4 bar_db] bar_pass
  by (simp add: bar_db_def bar_db_compacted_def)

subsection \<open>Compact\<close>

lemma Compact_unfold:
  assumes "GetCompactRevision d drv db = Return (compact, current, None)" and "compact < revision"
  shows "Compact d drv revision db =
           (case retry_loop d (compact_attempt drv compact (min revision current)) 0 None None db of
              (retryCount, r, err, db') \<Rightarrow> (Return err, db'))"
proof -
  have "(if current < revision then current else revision) = min revision current"
    by (simp add: min_def)
  then show ?thesis
    using assms by (simp add: Compact_def Let_def)
qed

lemma compact_attempt_fails:
  assumes "tx_fails drv i = Some (st, e)"
  shows "compact_attempt drv start endRev i db = ((None, Some e), db)"
  by (simp add: compact_attempt_def tryCompact_cases assms)

lemma compact_attempt_ok:
  assumes "tx_fails drv i = None"
  shows "compact_attempt drv start endRev i db =
           ((None, None), db\<lparr>kine := compaction_pass start endRev (kine db)\<rparr>)"
  by (simp add: compact_attempt_def tryCompact_cases assms)

lemma tx_retried:
  assumes "retried_until d (tx_errors drv) n" and "i < n"
  shows "\<exists>r e. compact_attempt drv start endRev i db = ((r, Some e), db) \<and> retryable d e"
proof -
  from retried_untilD [OF assms] obtain e where "tx_errors drv i = Some e" "retryable d e"
    by blast
  then obtain st where "tx_fails drv i = Some (st, e)"
    by (auto simp: tx_errors_def)
  with \<open>retryable d e\<close> show ?thesis using compact_attempt_fails by blast
qed

lemma GetCompactRevision_tx_fails:
  "GetCompactRevision d (drv\<lparr>tx_fails := f\<rparr>) db = GetCompactRevision d drv db"
proof -
  have "QueryContext (drv\<lparr>tx_fails := f\<rparr>) revisionIntervalSQL = QueryContext drv revisionIntervalSQL"
    by (simp add: QueryContext_def fun_eq_iff)
  then have "query d (drv\<lparr>tx_fails := f\<rparr>) revisionIntervalSQL db =
             query d drv revisionIntervalSQL db"
    by (simp add: query_def)
  then show ?thesis
    by (simp add: GetCompactRevision_def split: prod.splits option.splits list.splits)
qed

lemma GetCompactRevision_runs:
  assumes "n < maxRetries" and "query_fails drv n = None"
    and "retried_until d (query_fails drv) n"
    and "rows_err drv = None" and "scan_fails drv = None"
  shows "GetCompactRevision d drv db =
           Return (Int64 (max_opt (map kv_prev_revision
                                    (filter (\<lambda>r. kv_name r = compact_rev_key) (kine db)))),
                   Int64 (max_opt (map kv_id (kine db))), None)"
  by (simp add: GetCompactRevision_def query_runs [OF assms(1,2,3)] revisionIntervalSQL_def
      assms(4,5))

lemma good_query:
  assumes "query_fails drv = (\<lambda>i. None)" and "rows_err drv = None" and "scan_fails drv = None"
  shows "GetCompactRevision d drv db =
           Return (Int64 (max_opt (map kv_prev_revision
                                    (filter (\<lambda>r. kv_name r = compact_rev_key) (kine db)))),
                   Int64 (max_opt (map kv_id (kine db))), None)"
proof (rule GetCompactRevision_runs [where n = 0])
  show "retried_until d (query_fails drv) 0" by (simp add: retried_until_def)
qed (simp_all add: assms maxRetries_def)

lemmas compaction_defs =
  bar_db_def bar_db_compacted_def bar_rows_def marker_row_def compact_rev_key_def max_opt_def
  Int64_def

lemma interval_bar:
  assumes "query_fails drv = (\<lambda>i. None)" and "rows_err drv = None" and "scan_fails drv = None"
  shows "GetCompactRevision d drv bar_db = Return (0, 5, None)"
    and "GetCompactRevision d drv (bar_db_compacted 4) = Return (4, 5, None)"
    and "GetCompactRevision d drv (bar_db_compacted 5) = Return (5, 5, None)"
  by (simp_all add: good_query [OF assms] compaction_defs)

lemma bar_pass5: "compaction_pass 0 5 (kine bar_db) = kine (bar_db_compacted 5)"
  by (simp add: compaction_pass_def compaction_defs)

lemma bar_db_kine: "bar_db\<lparr>kine := kine (bar_db_compacted c)\<rparr> = bar_db_compacted c"
  by (simp add: bar_db_def bar_db_compacted_def)

text \<open>
  C4 as stated fails: with compact revision 5, current revision 5 and a compaction to
  revision 7 asked for, the target \<open>min 7 5\<close> is not above the compact revision, yet
  \<open>Compact\<close> does not return at once: it starts a transaction on the empty window, and
  when \<open>BeginTx\<close> fails the call returns that error, not nil.
\<close>

theorem Compact_counterexample:
  "GetCompactRevision zero_Generic tx_broken (bar_db_compacted 5) = Return (5, 5, None) \<and>
   min 7 5 \<le> (5::int) \<and>
   Compact zero_Generic tx_broken 7 (bar_db_compacted 5) =
     (Return (Some broken), bar_db_compacted 5)"
proof -
  have g: "GetCompactRevision zero_Generic tx_broken (bar_db_compacted 5) = Return (5, 5, None)"
    by (rule interval_bar) (simp_all add: tx_broken_def good_driver_def)
  have "retry_loop zero_Generic (compact_attempt tx_broken 5 (min 7 5)) 0 None None
          (bar_db_compacted 5) = (0, None, Some broken, bar_db_compacted 5)"
  proof (rule retry_loop_decisive)
    show "compact_attempt tx_broken 5 (min 7 5) 0 (bar_db_compacted 5) =
            ((None, Some broken), bar_db_compacted 5)"
      by (rule compact_attempt_fails [where st = BeginTx]) (simp add: tx_broken_def)
    show "\<forall>e. Some broken = Some e \<longrightarrow> \<not> retryable zero_Generic e"
      by (simp add: retryable_def zero_Generic_def)
  qed (simp_all add: maxRetries_def)
  then have "Compact zero_Generic tx_broken 7 (bar_db_compacted 5) =
     (Return (Some broken), bar_db_compacted 5)"
    by (simp add: Compact_unfold [OF g])
  with g show ?thesis by simp
qed

text \<open>
  C4, as amended. \<open>Compact\<close> first reads the compact and the current revision; an error of
  that read is returned. If the revision asked for is not above the compact revision the
  call returns nil and the table is unchanged. Otherwise, with the target
  \<open>min revision current\<close>, it runs the compaction of the window \<open>(compact, target]\<close>, also
  when that window is empty: the first try that commits gives the compacted table and
  nil; a failure that \<open>Retry\<close> accepts leads to a new try of the whole transaction; a
  failure that it does not accept, or the failure of the last of \<open>maxRetries\<close> tries, is
  returned with the table unchanged; no try of index \<open>maxRetries\<close> or more is made.
\<close>

theorem Compact_spec:
  "(\<forall>c t e. GetCompactRevision d drv db = Return (c, t, Some e) \<longrightarrow>
      Compact d drv revision db = (Return (Some e), db)) \<and>
   (GetCompactRevision d drv db = Return (compact, current, None) \<longrightarrow>
      (revision \<le> compact \<longrightarrow> Compact d drv revision db = (Return None, db)) \<and>
      (compact < revision \<longrightarrow>
         (n < maxRetries \<and> retried_until d (tx_errors drv) n \<longrightarrow>
            (tx_fails drv n = None \<longrightarrow>
               Compact d drv revision db =
                 (Return None,
                  db\<lparr>kine := compaction_pass compact (min revision current) (kine db)\<rparr>)) \<and>
            (\<forall>st e. tx_fails drv n = Some (st, e) \<and> \<not> retryable d e \<longrightarrow>
               Compact d drv revision db = (Return (Some e), db))) \<and>
         (retried_until d (tx_errors drv) maxRetries \<longrightarrow>
            (\<exists>st e. tx_fails drv (maxRetries - 1) = Some (st, e) \<and>
                    Compact d drv revision db = (Return (Some e), db))) \<and>
         ((\<forall>i<maxRetries. f i = tx_fails drv i) \<longrightarrow>
            Compact d (drv\<lparr>tx_fails := f\<rparr>) revision db = Compact d drv revision db)))"
proof (intro conjI impI allI)
  fix c t e
  assume "GetCompactRevision d drv db = Return (c, t, Some e)"
  then show "Compact d drv revision db = (Return (Some e), db)"
    by (simp add: Compact_def)
next
  assume "GetCompactRevision d drv db = Return (compact, current, None)" and "revision \<le> compact"
  then show "Compact d drv revision db = (Return None, db)"
    by (simp add: Compact_def)
next
  assume g: "GetCompactRevision d drv db = Return (compact, current, None)"
    and lt: "compact < revision"
    and n: "n < maxRetries \<and> retried_until d (tx_errors drv) n"
    and ok: "tx_fails drv n = None"
  let ?db' = "db\<lparr>kine := compaction_pass compact (min revision current) (kine db)\<rparr>"
  have "retry_loop d (compact_attempt drv compact (min revision current)) 0 None None db =
          (n, None, None, ?db')"
  proof (rule retry_loop_decisive)
    show "\<forall>i. 0 \<le> i \<and> i < n \<longrightarrow>
            (\<exists>r e. compact_attempt drv compact (min revision current) i db = ((r, Some e), db) \<and>
                   retryable d e)"
      using n tx_retried by blast
    show "compact_attempt drv compact (min revision current) n db = ((None, None), ?db')"
      using ok by (rule compact_attempt_ok)
  qed (use n in auto)
  then show "Compact d drv revision db = (Return None, ?db')"
    by (simp add: Compact_unfold [OF g lt])
next
  fix st e
  assume g: "GetCompactRevision d drv db = Return (compact, current, None)"
    and lt: "compact < revision"
    and n: "n < maxRetries \<and> retried_until d (tx_errors drv) n"
    and bad: "tx_fails drv n = Some (st, e) \<and> \<not> retryable d e"
  have "retry_loop d (compact_attempt drv compact (min revision current)) 0 None None db =
          (n, None, Some e, db)"
  proof (rule retry_loop_decisive)
    show "\<forall>i. 0 \<le> i \<and> i < n \<longrightarrow>
            (\<exists>r e. compact_attempt drv compact (min revision current) i db = ((r, Some e), db) \<and>
                   retryable d e)"
      using n tx_retried by blast
    show "compact_attempt drv compact (min revision current) n db = ((None, Some e), db)"
      using bad compact_attempt_fails by blast
  qed (use n bad in auto)
  then show "Compact d drv revision db = (Return (Some e), db)"
    by (simp add: Compact_unfold [OF g lt])
next
  assume g: "GetCompactRevision d drv db = Return (compact, current, None)"
    and lt: "compact < revision"
    and all: "retried_until d (tx_errors drv) maxRetries"
  have pos: "0 < maxRetries" by (simp add: maxRetries_def)
  then obtain e where "tx_errors drv (maxRetries - 1) = Some e"
    using retried_untilD [OF all, of "maxRetries - 1"] by auto
  then obtain st where last: "tx_fails drv (maxRetries - 1) = Some (st, e)"
    by (auto simp: tx_errors_def)
  let ?a = "compact_attempt drv compact (min revision current)"
  have "retry_loop d ?a 0 None None db =
          (maxRetries, fst (fst (?a (maxRetries - 1) db)), snd (fst (?a (maxRetries - 1) db)), db)"
  proof (rule retry_loop_exhausted [OF pos])
    show "\<forall>i. 0 \<le> i \<and> i < maxRetries \<longrightarrow>
            (\<exists>r e. ?a i db = ((r, Some e), db) \<and> retryable d e)"
      using all tx_retried by blast
  qed
  moreover have "?a (maxRetries - 1) db = ((None, Some e), db)"
    using last by (rule compact_attempt_fails)
  ultimately have "Compact d drv revision db = (Return (Some e), db)"
    by (simp add: Compact_unfold [OF g lt])
  with last show "\<exists>st e. tx_fails drv (maxRetries - 1) = Some (st, e) \<and>
                    Compact d drv revision db = (Return (Some e), db)"
    by blast
next
  assume g: "GetCompactRevision d drv db = Return (compact, current, None)"
    and lt: "compact < revision"
    and same: "\<forall>i<maxRetries. f i = tx_fails drv i"
  have g': "GetCompactRevision d (drv\<lparr>tx_fails := f\<rparr>) db = Return (compact, current, None)"
    using g by (simp add: GetCompactRevision_tx_fails)
  have "\<forall>i<maxRetries. compact_attempt (drv\<lparr>tx_fails := f\<rparr>) compact (min revision current) i =
          compact_attempt drv compact (min revision current) i"
    using same by (simp add: compact_attempt_def fun_eq_iff)
  then have "retry_loop d (compact_attempt (drv\<lparr>tx_fails := f\<rparr>) compact (min revision current))
               0 None None db =
             retry_loop d (compact_attempt drv compact (min revision current)) 0 None None db"
    by (rule retry_loop_cong)
  then show "Compact d (drv\<lparr>tx_fails := f\<rparr>) revision db = Compact d drv revision db"
    by (simp add: Compact_unfold [OF g lt] Compact_unfold [OF g' lt])
qed

theorem Compact_spec_witness:
  "GetCompactRevision zero_Generic broken_driver bar_db =
     Return (0, 0, Some (TryError ''query'' 0 broken)) \<and>
   Compact zero_Generic broken_driver 4 bar_db =
     (Return (Some (TryError ''query'' 0 broken)), bar_db) \<and>
   GetCompactRevision retry_busy tx_busy_once (bar_db_compacted 4) = Return (4, 5, None) \<and>
   Compact retry_busy tx_busy_once 3 (bar_db_compacted 4) = (Return None, bar_db_compacted 4) \<and>
   GetCompactRevision retry_busy tx_busy_once bar_db = Return (0, 5, None) \<and>
   retried_until retry_busy (tx_errors tx_busy_once) 1 \<and> tx_fails tx_busy_once 1 = None \<and>
   Compact retry_busy tx_busy_once 4 bar_db = (Return None, bar_db_compacted 4) \<and>
   Compact retry_busy tx_busy_once 9 bar_db = (Return None, bar_db_compacted 5) \<and>
   tx_fails tx_broken 0 = Some (BeginTx, broken) \<and> \<not> retryable zero_Generic broken \<and>
   Compact zero_Generic tx_broken 4 bar_db = (Return (Some broken), bar_db) \<and>
   retried_until retry_busy (tx_errors tx_always_busy) maxRetries \<and>
   Compact retry_busy tx_always_busy 4 bar_db = (Return (Some busy), bar_db) \<and>
   Compact retry_busy
       (tx_always_busy\<lparr>tx_fails := (\<lambda>i. if i < 500 then Some (ExecDeleteSuperseded, busy)
                                          else None)\<rparr>) 4 bar_db =
     Compact retry_busy tx_always_busy 4 bar_db"
proof -
  let ?f = "\<lambda>i::nat. if i < 500 then Some (ExecDeleteSuperseded, busy) else None"
  have gq: "GetCompactRevision zero_Generic broken_driver bar_db =
     Return (0, 0, Some (TryError ''query'' 0 broken))"
    by (simp add: GetCompactRevision_def
        query_fails_at [where n = 0 and e = broken] maxRetries_def broken_driver_def
        good_driver_def retryable_def zero_Generic_def retried_until_def)
  have g4: "GetCompactRevision retry_busy tx_busy_once (bar_db_compacted 4) = Return (4, 5, None)"
    and g0: "GetCompactRevision retry_busy tx_busy_once bar_db = Return (0, 5, None)"
    by (rule interval_bar; simp add: tx_busy_once_def good_driver_def)+
  have g0b: "GetCompactRevision zero_Generic tx_broken bar_db = Return (0, 5, None)"
    by (rule interval_bar; simp add: tx_broken_def good_driver_def)
  have g0c: "GetCompactRevision retry_busy tx_always_busy bar_db = Return (0, 5, None)"
    by (rule interval_bar; simp add: tx_always_busy_def good_driver_def)
  have r1: "retried_until retry_busy (tx_errors tx_busy_once) 1"
    and ok1: "tx_fails tx_busy_once 1 = None"
    by (simp_all add: retried_until_def tx_errors_def tx_busy_once_def good_driver_def
        retry_busy_def retryable_def)
  have r0: "retried_until zero_Generic (tx_errors tx_broken) 0"
    and bad: "tx_fails tx_broken 0 = Some (BeginTx, broken)"
    and nr: "\<not> retryable zero_Generic broken"
    by (simp_all add: retried_until_def tx_broken_def good_driver_def retryable_def
        zero_Generic_def)
  have rb: "retried_until retry_busy (tx_errors tx_always_busy) maxRetries"
    and lastb: "tx_fails tx_always_busy (maxRetries - 1) = Some (ExecDeleteSuperseded, busy)"
    by (simp_all add: retried_until_def tx_errors_def tx_always_busy_def good_driver_def
        retry_busy_def retryable_def)
  have same: "\<forall>i<maxRetries. ?f i = tx_fails tx_always_busy i"
    by (simp add: tx_always_busy_def good_driver_def maxRetries_def)
  have m: "(1::nat) < maxRetries" "(0::nat) < maxRetries" by (simp_all add: maxRetries_def)
  have w0: "Compact zero_Generic broken_driver 4 bar_db =
     (Return (Some (TryError ''query'' 0 broken)), bar_db)"
    using Compact_spec [where d = zero_Generic and drv = broken_driver and db = bar_db
        and revision = 4] gq
    by blast
  have w1: "Compact retry_busy tx_busy_once 3 (bar_db_compacted 4) =
      (Return None, bar_db_compacted 4)"
    using Compact_spec [where d = retry_busy and drv = tx_busy_once and db = "bar_db_compacted 4"
        and revision = 3 and compact = 4 and current = 5] g4
    by simp
  have w2: "Compact retry_busy tx_busy_once 4 bar_db = (Return None, bar_db_compacted 4)"
    using Compact_spec [where d = retry_busy and drv = tx_busy_once and db = bar_db
        and revision = 4 and compact = 0 and current = 5 and n = 1] g0 r1 ok1 m
    by (simp add: bar_pass bar_db_kine)
  have w3: "Compact retry_busy tx_busy_once 9 bar_db = (Return None, bar_db_compacted 5)"
    using Compact_spec [where d = retry_busy and drv = tx_busy_once and db = bar_db
        and revision = 9 and compact = 0 and current = 5 and n = 1] g0 r1 ok1 m
    by (simp add: bar_pass5 bar_db_kine)
  have w4: "Compact zero_Generic tx_broken 4 bar_db = (Return (Some broken), bar_db)"
    using Compact_spec [where d = zero_Generic and drv = tx_broken and db = bar_db
        and revision = 4 and compact = 0 and current = 5 and n = 0] g0b r0 bad nr m
    by simp
  have w5: "Compact retry_busy tx_always_busy 4 bar_db = (Return (Some busy), bar_db)"
    using Compact_spec [where d = retry_busy and drv = tx_always_busy and db = bar_db
        and revision = 4 and compact = 0 and current = 5] g0c rb lastb
    by auto
  have w6: "Compact retry_busy (tx_always_busy\<lparr>tx_fails := ?f\<rparr>) 4 bar_db =
     Compact retry_busy tx_always_busy 4 bar_db"
    using Compact_spec [where d = retry_busy and drv = tx_always_busy and db = bar_db
        and revision = 4 and compact = 0 and current = 5 and f = ?f] g0c same
    by simp
  show ?thesis
    using gq w0 g4 w1 g0 r1 ok1 w2 w3 bad nr w4 rb w5 w6 by simp
qed

subsection \<open>Opening the database\<close>

declare Open_loop.simps [simp del] ping_loop.simps [simp del]

lemma openAndTest_cases:
  "(\<exists>e. openAndTest env i = (None, Some e)) \<or> openAndTest env i = (Some zero_DB, None)"
  by (simp add: openAndTest_def split: option.splits)

lemma attempt_failsD: "attempt_fails env i \<Longrightarrow> \<exists>e. openAndTest env i = (None, Some e)"
  using openAndTest_cases [of env i] by (auto simp: attempt_fails_def)

lemma Open_loop_exhausted:
  assumes "i < 300"
    and "\<forall>j. i \<le> j \<and> j < 300 \<longrightarrow> attempt_fails env j \<and> \<not> ctx_done env j"
  shows "\<exists>e. Open_loop env i db err = Inl (None, Some e)"
  using assms
proof (induction "300 - i" arbitrary: i db err)
  case 0
  then show ?case by simp
next
  case (Suc m)
  from Suc.prems obtain e where a: "openAndTest env i = (None, Some e)" and c: "\<not> ctx_done env i"
    using attempt_failsD by (metis order_refl)
  have step: "Open_loop env i db err = Open_loop env (i + 1) None (Some e)"
    using Suc.prems(1) by (subst Open_loop.simps) (simp add: a c)
  show ?case
  proof (cases "i + 1 < 300")
    case True
    have "\<exists>e'. Open_loop env (i + 1) None (Some e) = Inl (None, Some e')"
    proof (rule Suc.hyps(1))
      show "m = 300 - (i + 1)" using Suc.hyps(2) by simp
      show "\<forall>j. i + 1 \<le> j \<and> j < 300 \<longrightarrow> attempt_fails env j \<and> \<not> ctx_done env j"
        using Suc.prems(2) by simp
    qed (rule True)
    with step show ?thesis by simp
  next
    case False
    then have "Open_loop env (i + 1) None (Some e) = Inl (None, Some e)"
      by (subst Open_loop.simps) simp
    with step show ?thesis by simp
  qed
qed

lemma Open_loop_cancelled:
  assumes "i \<le> k" and "k < 300"
    and "\<forall>j. i \<le> j \<and> j < k \<longrightarrow> attempt_fails env j \<and> \<not> ctx_done env j"
    and "attempt_fails env k" and "ctx_done env k"
  shows "Open_loop env i db err = Inr ContextError"
  using assms
proof (induction "k - i" arbitrary: i db err)
  case 0
  then have "i = k" by simp
  moreover obtain e where "openAndTest env k = (None, Some e)"
    using assms(4) attempt_failsD by blast
  ultimately show ?case
    using assms(2,5) by (subst Open_loop.simps) simp
next
  case (Suc m)
  then have lt: "i < k" by simp
  with Suc.prems obtain e where a: "openAndTest env i = (None, Some e)" and c: "\<not> ctx_done env i"
    using attempt_failsD by (metis order_refl)
  have "Open_loop env (i + 1) None (Some e) = Inr ContextError"
  proof (rule Suc.hyps(1))
    show "m = k - (i + 1)" using Suc.hyps(2) by simp
    show "i + 1 \<le> k" using lt by simp
    show "\<forall>j. i + 1 \<le> j \<and> j < k \<longrightarrow> attempt_fails env j \<and> \<not> ctx_done env j"
      using Suc.prems(3) by simp
  qed (use Suc.prems in auto)
  moreover have "i < 300" using lt Suc.prems(2) by simp
  ultimately show ?case
    by (subst Open_loop.simps) (simp add: a c)
qed

lemma Open_loop_Inl:
  "i < 300 \<Longrightarrow> Open_loop env i db err = Inl (h, x) \<Longrightarrow> (h = None) = (x \<noteq> None)"
proof (induction env i db err rule: Open_loop.induct)
  case (1 env i db err)
  from openAndTest_cases [of env i] show ?case
  proof
    assume "openAndTest env i = (Some zero_DB, None)"
    with 1(2,3) show ?thesis by (subst (asm) Open_loop.simps) auto
  next
    assume "\<exists>e. openAndTest env i = (None, Some e)"
    then obtain e where a: "openAndTest env i = (None, Some e)" ..
    show ?thesis
    proof (cases "ctx_done env i")
      case True
      with 1(2,3) a show ?thesis by (subst (asm) Open_loop.simps) simp
    next
      case False
      with 1(2,3) a have step: "Open_loop env (i + 1) None (Some e) = Inl (h, x)"
        by (subst (asm) Open_loop.simps) simp
      show ?thesis
      proof (cases "i + 1 < 300")
        case True
        from 1(1) [OF 1(2) a [symmetric] refl False True step] show ?thesis by simp
      next
        case nomore: False
        with step show ?thesis by (subst (asm) Open_loop.simps) auto
      qed
    qed
  qed
qed

lemma Open_loop_Inr:
  "Open_loop env i db err = Inr e \<Longrightarrow>
     e = ContextError \<and> (\<exists>j<300. attempt_fails env j \<and> ctx_done env j)"
proof (induction env i db err rule: Open_loop.induct)
  case (1 env i db err)
  show ?case
  proof (cases "i < 300")
    case False
    with 1(2) show ?thesis by (subst (asm) Open_loop.simps) simp
  next
    case True
    from openAndTest_cases [of env i] show ?thesis
    proof
      assume "openAndTest env i = (Some zero_DB, None)"
      with 1(2) True show ?thesis by (subst (asm) Open_loop.simps) simp
    next
      assume "\<exists>e. openAndTest env i = (None, Some e)"
      then obtain e' where a: "openAndTest env i = (None, Some e')" ..
      then have f: "attempt_fails env i" by (simp add: attempt_fails_def)
      show ?thesis
      proof (cases "ctx_done env i")
        case cancelled: True
        with 1(2) True a have "e = ContextError" by (subst (asm) Open_loop.simps) simp
        with f cancelled True show ?thesis by blast
      next
        case False
        with 1(2) True a have "Open_loop env (i + 1) None (Some e') = Inr e"
          by (subst (asm) Open_loop.simps) simp
        from 1(1) [OF True a [symmetric] refl False this] show ?thesis by simp
      qed
    qed
  qed
qed

lemma Open_panics:
  assumes "\<forall>i<300. attempt_fails env i" and "\<forall>i<300. \<not> ctx_done env i"
  shows "Open env connPoolConfig = Panic"
proof -
  have "\<exists>e. Open_loop env 0 None None = Inl (None, Some e)"
    by (rule Open_loop_exhausted) (use assms in auto)
  then show ?thesis
    by (auto simp: Open_def configureConnectionPooling_def Let_def)
qed

lemma Open_cancelled:
  assumes "\<forall>i<300. attempt_fails env i" and "k < 300"
    and "\<forall>i<k. \<not> ctx_done env i" and "ctx_done env k"
  shows "Open env connPoolConfig = Return (None, Some ContextError)"
proof -
  have "Open_loop env 0 None None = Inr ContextError"
    by (rule Open_loop_cancelled [where k = k]) (use assms in auto)
  then show ?thesis by (simp add: Open_def)
qed

lemma Open_error_return:
  assumes r: "Open env connPoolConfig = Return (g, Some e)"
  shows "g = None \<and> e = ContextError \<and> (\<exists>i<300. attempt_fails env i \<and> ctx_done env i)"
proof (cases "Open_loop env 0 None None")
  case (Inr e')
  with r have "g = None" "e = e'" by (simp_all add: Open_def)
  with Open_loop_Inr [OF Inr] show ?thesis by simp
next
  case (Inl p)
  obtain h x where p: "p = (h, x)" by (cases p)
  have hx: "(h = None) = (x \<noteq> None)"
    using Open_loop_Inl [of 0 env None None h x] Inl p by simp
  from r Inl p hx have False
    by (cases h) (auto simp: Open_def configureConnectionPooling_def Let_def)
  then show ?thesis ..
qed

text \<open>
  C9. If all 300 open-and-ping attempts fail and the context is never cancelled, \<open>Open\<close>
  does not return: the loop ends with a nil handle, \<open>configureConnectionPooling\<close> is called
  with it and the call of the first setter panics. If all attempts fail and the context is
  cancelled during one of the waits, \<open>Open\<close> returns \<open>ctx.Err()\<close>. And whenever \<open>Open\<close> returns
  a non-nil error, it is \<open>ctx.Err()\<close>, returned with a nil struct after a failed attempt.
\<close>

theorem Open_spec:
  "((\<forall>i<300. attempt_fails env i) \<and> (\<forall>i<300. \<not> ctx_done env i) \<longrightarrow>
      Open env connPoolConfig = Panic) \<and>
   ((\<forall>i<300. attempt_fails env i) \<and> k < 300 \<and> (\<forall>i<k. \<not> ctx_done env i) \<and> ctx_done env k \<longrightarrow>
      Open env connPoolConfig = Return (None, Some ContextError)) \<and>
   (\<forall>g e. Open env connPoolConfig = Return (g, Some e) \<longrightarrow>
      g = None \<and> e = ContextError \<and> (\<exists>i<300. attempt_fails env i \<and> ctx_done env i))"
  using Open_panics [of env connPoolConfig] Open_cancelled [of env k connPoolConfig]
    Open_error_return [of env connPoolConfig]
  by blast

lemma unreachable_fails: "attempt_fails unreachable i" "attempt_fails unreachable_cancelled i"
  by (simp_all add: attempt_fails_def openAndTest_def unreachable_def unreachable_cancelled_def
      ping_loop.simps [of _ 0])

theorem Open_spec_witness:
  "list_all (attempt_fails unreachable) [0..<300] \<and>
   list_all (\<lambda>i. \<not> ctx_done unreachable i) [0..<300] \<and>
   Open unreachable pool_config = Panic \<and>
   list_all (attempt_fails unreachable_cancelled) [0..<300] \<and>
   list_all (\<lambda>i. \<not> ctx_done unreachable_cancelled i) [0..<2] \<and>
   ctx_done unreachable_cancelled 2 \<and>
   Open unreachable_cancelled pool_config = Return (None, Some ContextError)"
proof -
  have n: "\<forall>i<300. \<not> ctx_done unreachable i" by (simp add: unreachable_def)
  have c: "\<forall>i<2. \<not> ctx_done unreachable_cancelled i" "ctx_done unreachable_cancelled 2"
    by (simp_all add: unreachable_cancelled_def)
  have w1: "Open unreachable pool_config = Panic"
    using Open_spec [where env = unreachable and connPoolConfig = pool_config]
      unreachable_fails(1) n
    by blast
  have w2: "Open unreachable_cancelled pool_config = Return (None, Some ContextError)"
    using Open_spec [where env = unreachable_cancelled and connPoolConfig = pool_config and k = 2]
      unreachable_fails(2) c
    by simp
  show ?thesis using unreachable_fails n c w1 w2 by (simp add: list_all_iff)
qed

subsection \<open>Prefix ranges\<close>

lemma HasSuffix_slash:
  "HasSuffix P ''/'' \<longleftrightarrow> P \<noteq> [] \<and> last P = CHR ''/''"
proof (cases P rule: rev_cases)
  case Nil
  then show ?thesis by (simp add: HasSuffix_def)
next
  case (snoc ys y)
  then show ?thesis by (auto simp: HasSuffix_def)
qed

lemma take_length_minus_one: "take (length P - Suc 0) P = butlast P"
  by (simp add: butlast_conv_take)

text \<open>
  C6. For every prefix \<open>P\<close>, \<open>getPrefixRange P\<close> returns \<open>P\<close> as the start; the end
  is \<open>P\<close> with its last byte replaced by \<open>0\<close> when \<open>P\<close> ends with a slash, and \<open>P\<close>
  followed by the byte 1 otherwise.
\<close>

theorem getPrefixRange_spec:
  "getPrefixRange P =
     (P, if P \<noteq> [] \<and> last P = CHR ''/'' then butlast P @ ''0'' else P @ [CHR 0x01])"
  by (simp add: getPrefixRange_def HasSuffix_slash take_length_minus_one)

theorem getPrefixRange_spec_witness:
  "getPrefixRange ''/'' = (''/'', ''0'') \<and>
   getPrefixRange ''a'' = (''a'', [CHR ''a'', CHR 0x01]) \<and>
   getPrefixRange ''/registry/'' = (''/registry/'', ''/registry0'')"
  using getPrefixRange_spec [of "''/''"] getPrefixRange_spec [of "''a''"]
    getPrefixRange_spec [of "''/registry/''"]
  by simp

subsection \<open>The watch query timeout\<close>

lemma sint_5_Second: "sint (5 * Second) = 5000000000"
  by (simp add: Second_def)

lemma sint_20_Second: "sint (20 * Second) = 20000000000"
  by (simp add: Second_def)

lemma sint_3_Second: "sint (3 * Second) = 3000000000"
  by (simp add: Second_def)

text \<open>
  C8 as stated fails when "subject to a minimum of 5 seconds" is read as raising a smaller
  value to the minimum: a configured timeout of 3 seconds gives 20 seconds, not the
  greater of 3 and 5 seconds.
\<close>

theorem GetWatchQueryTimeout_counterexample:
  "sint (GetWatchQueryTimeout (zero_Generic\<lparr>WatchQueryTimeout := 3 * Second\<rparr>)) = 20000000000 \<and>
   max (sint (3 * Second)) (sint (5 * Second)) = 5000000000 \<and>
   sint (GetWatchQueryTimeout (zero_Generic\<lparr>WatchQueryTimeout := 3 * Second\<rparr>)) \<noteq>
     max (sint (3 * Second)) (sint (5 * Second))"
  by (simp add: GetWatchQueryTimeout_def Let_def sint_5_Second sint_3_Second sint_20_Second)

text \<open>
  C8, as amended. The effective watch query timeout is the configured value when that
  value is at least five seconds; every other configured value (zero for an unset one, a
  negative one, one below five seconds) gives the default of twenty seconds; so the
  result is never below five seconds.
\<close>

theorem GetWatchQueryTimeout_spec:
  "GetWatchQueryTimeout (d\<lparr>WatchQueryTimeout := v\<rparr>) =
     (if 5000000000 \<le> sint v then v else 20 * Second) \<and>
   GetWatchQueryTimeout (d\<lparr>WatchQueryTimeout := 0\<rparr>) = 20 * Second \<and>
   5000000000 \<le> sint (GetWatchQueryTimeout d)"
  by (simp add: GetWatchQueryTimeout_def Let_def sint_5_Second sint_20_Second)

theorem GetWatchQueryTimeout_spec_witness:
  "GetWatchQueryTimeout (zero_Generic\<lparr>WatchQueryTimeout := 7 * Second\<rparr>) = 7 * Second \<and>
   GetWatchQueryTimeout (zero_Generic\<lparr>WatchQueryTimeout := 5 * Second\<rparr>) = 5 * Second \<and>
   GetWatchQueryTimeout (zero_Generic\<lparr>WatchQueryTimeout := 3 * Second\<rparr>) = 20 * Second \<and>
   GetWatchQueryTimeout (zero_Generic\<lparr>WatchQueryTimeout := - Second\<rparr>) = 20 * Second \<and>
   GetWatchQueryTimeout zero_Generic = 20 * Second"
  using GetWatchQueryTimeout_spec [where d = zero_Generic and v = "7 * Second"]
    GetWatchQueryTimeout_spec [where d = zero_Generic and v = "5 * Second"]
    GetWatchQueryTimeout_spec [where d = zero_Generic and v = "3 * Second"]
    GetWatchQueryTimeout_spec [where d = zero_Generic and v = "- Second"]
    GetWatchQueryTimeout_spec [where d = zero_Generic and v = 0]
  by (simp add: Second_def zero_Generic_def)

end
